theory Spec2Isabelle
  imports Main "HOL-Library.FSet" "HOL-Library.Finite_Map" "HOL-Library.Char_ord"
    "HOL-Library.List_Lexorder"
begin

section \<open>Topological resolver (resolve\_dependencies.py)\<close>

text \<open>
  Table names are Python strings; \<open>sorted\<close> compares them lexicographically by code
  point, which is the order \<open>List_Lexorder\<close> and \<open>Char_ord\<close> give to \<open>string\<close>.
  The dependency graph is the dictionary \<open>graph: Dict[str, Set[str]]\<close>: a finite map
  from a table to the finite set of tables it references.
\<close>

type_synonym table = string
type_synonym graph = "(table, table fset) fmap"

text \<open>
  What can go wrong inside \<open>visit\<close>: \<open>stack.index(node)\<close> raises \<open>ValueError\<close> when
  the node is not in the list, \<open>temp.remove(node)\<close> raises \<open>KeyError\<close> when the node is
  not in the set, and the recursion can be too deep (the model's fuel is the recursion
  depth that is left).
\<close>

datatype py_error = ValueError | KeyError | RecursionDepth

text \<open>The four variables of \<open>main\<close> that the closure \<open>visit\<close> mutates.\<close>

record rstate =
  resolved :: "table list"
  temp :: "table set"
  visited :: "table set"
  cycle_report :: "table list list"

definition init_rstate :: rstate where
  "init_rstate = \<lparr>resolved = [], temp = {}, visited = {}, cycle_report = []\<rparr>"

text \<open>\<open>xs.index(x)\<close>: the first position of \<open>x\<close>, \<open>None\<close> where Python raises.\<close>

fun list_index :: "'a list \<Rightarrow> 'a \<Rightarrow> nat option" where
  "list_index [] x = None"
| "list_index (y # ys) x = (if y = x then Some 0 else map_option Suc (list_index ys x))"

text \<open>\<open>sorted(graph.get(node, []))\<close>\<close>

definition sorted_deps :: "graph \<Rightarrow> table \<Rightarrow> table list" where
  "sorted_deps g node =
     (case fmlookup g node of None \<Rightarrow> [] | Some ds \<Rightarrow> sorted_list_of_fset ds)"

text \<open>A \<open>for\<close> loop whose body may raise: the first error ends the loop.\<close>

fun for_each :: "('a \<Rightarrow> 's \<Rightarrow> 'e + 's) \<Rightarrow> 'a list \<Rightarrow> 's \<Rightarrow> 'e + 's" where
  "for_each body [] s = Inr s"
| "for_each body (x # xs) s =
     (case body x s of Inl e \<Rightarrow> Inl e | Inr s' \<Rightarrow> for_each body xs s')"

text \<open>
  \<open>visit(node, stack)\<close>, lines 41 to 53. The first argument bounds the depth of the
  recursion; every recursive call is one level deeper.
\<close>

primrec visit :: "nat \<Rightarrow> graph \<Rightarrow> table \<Rightarrow> table list \<Rightarrow> rstate \<Rightarrow> py_error + rstate" where
  "visit 0 g node stack st = Inl RecursionDepth"
| "visit (Suc fuel) g node stack st =
     (if node \<in> visited st then Inr st
      else if node \<in> temp st then
        (case list_index stack node of
           None \<Rightarrow> Inl ValueError
         | Some i \<Rightarrow> Inr (st\<lparr>cycle_report := cycle_report st @ [drop i stack @ [node]]\<rparr>))
      else
        (case for_each (\<lambda>dep. visit fuel g dep (stack @ [dep])) (sorted_deps g node)
                (st\<lparr>temp := insert node (temp st)\<rparr>) of
           Inl e \<Rightarrow> Inl e
         | Inr st' \<Rightarrow>
             if node \<in> temp st' then
               Inr (st'\<lparr>temp := temp st' - {node},
                        visited := insert node (visited st'),
                        resolved := resolved st' @ [node]\<rparr>)
             else Inl KeyError))"

text \<open>
  Lines 36 to 56 of \<open>main\<close>: the traversal from every table of the graph in sorted
  order. The result is the pair \<open>(resolved, cycle_report)\<close>.
\<close>

definition resolve_with :: "nat \<Rightarrow> graph \<Rightarrow> py_error + (table list \<times> table list list)" where
  "resolve_with fuel g =
     (case for_each (\<lambda>t. visit fuel g t [t]) (sorted_list_of_fset (fmdom g)) init_rstate of
        Inl e \<Rightarrow> Inl e
      | Inr st \<Rightarrow> Inr (resolved st, cycle_report st))"


text \<open>
  The depth of the recursion is bounded by the number of table names that occur in the
  graph, as keys or as referenced tables: \<open>resolve\<close> runs the traversal with one level
  more than that.
\<close>

definition all_names :: "graph \<Rightarrow> table fset" where
  "all_names g = fmdom g |\<union>| ffUnion (fmran g)"

definition resolve :: "graph \<Rightarrow> py_error + (table list \<times> table list list)" where
  "resolve g = resolve_with (Suc (fcard (all_names g))) g"

text \<open>
  Lines 27 to 34 of \<open>main\<close>: the graph is filled from the files of the extraction
  directory, a file without the text \<open>CREATE TABLE\<close> being skipped. The directory
  listing \<open>EXTRA_DIR.glob("*.sql")\<close> is a list of (table, text) pairs in the order the
  file system gives. \<open>find_refs text\<close> stands for the library call
  \<open>[m.group("ref_table") for m in FK_PATTERN.finditer(text)]\<close>.
\<close>

definition startswith :: "string \<Rightarrow> string \<Rightarrow> bool" where
  "startswith s p = (take (length p) s = p)"

fun contains :: "string \<Rightarrow> string \<Rightarrow> bool" where
  "contains pat [] = (pat = [])"
| "contains pat (c # cs) = (startswith (c # cs) pat \<or> contains pat cs)"

definition parse_fks :: "(string \<Rightarrow> table list) \<Rightarrow> string \<Rightarrow> table fset" where
  "parse_fks find_refs content = fset_of_list (find_refs content)"

definition build_graph :: "(string \<Rightarrow> table list) \<Rightarrow> (table \<times> string) list \<Rightarrow> graph" where
  "build_graph find_refs listing =
     fold (\<lambda>(table, text) graph.
             if \<not> contains ''CREATE TABLE'' text then graph
             else fmupd table (parse_fks find_refs text) graph)
          listing fmempty"

text \<open>\<open>sep.join(xs)\<close>\<close>

fun join :: "string \<Rightarrow> string list \<Rightarrow> string" where
  "join sep [] = []"
| "join sep [x] = x"
| "join sep (x # y # ys) = x @ sep @ join sep (y # ys)"

text \<open>Decimal digits of a number, as \<open>f"{n}"\<close> prints them.\<close>

fun decimal :: "nat \<Rightarrow> string" where
  "decimal n = (if n < 10 then [char_of (48 + n)]
                else decimal (n div 10) @ [char_of (48 + n mod 10)])"

text \<open>
  Lines 59 to 70 write the report: one numbered line per resolved table with its sorted
  dependencies, then the cycles. \<open>{idx:02d}\<close> pads the position to two digits.
\<close>

definition pad2 :: "nat \<Rightarrow> string" where
  "pad2 n = (if n < 10 then CHR ''0'' # decimal n else decimal n)"

definition report_line :: "graph \<Rightarrow> nat \<Rightarrow> table \<Rightarrow> string" where
  "report_line g idx table =
     (let parents = join '', '' (sorted_deps g table) in
      pad2 idx @ ''. '' @ table @ '' -> depends on ''
        @ (if parents \<noteq> [] then parents else ''none'') @ [CHR 0x0A])"

definition dependency_report :: "graph \<Rightarrow> table list \<Rightarrow> table list list \<Rightarrow> string" where
  "dependency_report g res cyc =
     ''Dependency order (parent -> child):'' @ [CHR 0x0A]
     @ concat (map (\<lambda>(idx, table). report_line g idx table) (zip [1..<Suc (length res)] res))
     @ [CHR 0x0A]
     @ (if cyc \<noteq> [] then
          ''Cycles detected:'' @ [CHR 0x0A]
          @ concat (map (\<lambda>cycle. join '' -> '' cycle @ [CHR 0x0A]) cyc)
        else ''No cycles detected.'' @ [CHR 0x0A])"

text \<open>
  The whole of \<open>main\<close>: the resolved order (the list that \<open>dependency_order.json\<close>
  stores) and the text of the report.
\<close>

definition resolver_main ::
    "(string \<Rightarrow> table list) \<Rightarrow> (table \<times> string) list \<Rightarrow> py_error + (table list \<times> string)" where
  "resolver_main find_refs listing =
     (let graph = build_graph find_refs listing in
      case resolve graph of
        Inl e \<Rightarrow> Inl e
      | Inr (res, cyc) \<Rightarrow> Inr (res, dependency_report graph res cyc))"

section \<open>Group assignor and seed separator (split\_by\_schema.py)\<close>

text \<open>
  Strings are lists of characters with code points below 256. Python's \<open>str.strip\<close>
  removes the white space characters among them; \<open>str.upper\<close> is only used to compare
  a prefix with \<open>CREATE TABLE\<close> or \<open>INSERT INTO\<close>, and below 256 only the letters a
  to z have an upper case among the letters of these two words, so that mapping a to z
  decides the same comparison.
\<close>

definition is_space :: "char \<Rightarrow> bool" where
  "is_space c = (let n = (of_char c :: nat) in
     (9 \<le> n \<and> n \<le> 13) \<or> (28 \<le> n \<and> n \<le> 32) \<or> n = 133 \<or> n = 160)"

definition lstrip :: "string \<Rightarrow> string" where
  "lstrip s = dropWhile is_space s"

definition rstrip :: "string \<Rightarrow> string" where
  "rstrip s = rev (dropWhile is_space (rev s))"

definition strip :: "string \<Rightarrow> string" where
  "strip s = lstrip (rstrip s)"

definition upper_char :: "char \<Rightarrow> char" where
  "upper_char c = (let n = (of_char c :: nat) in
     if 97 \<le> n \<and> n \<le> 122 then char_of (n - 32) else c)"

definition upper :: "string \<Rightarrow> string" where
  "upper s = map upper_char s"

text \<open>
  \<open>split_statements\<close>: the loop over the characters carries the buffer and the list of
  statements found so far.
\<close>

fun split_loop :: "string \<Rightarrow> string \<Rightarrow> string list \<Rightarrow> string list \<times> string" where
  "split_loop [] buffer stmts = (stmts, buffer)"
| "split_loop (c # cs) buffer stmts =
     (let buffer' = buffer @ [c] in
      if c = CHR '';'' then
        (let stmt = strip buffer' in
         split_loop cs [] (if stmt \<noteq> [] then stmts @ [stmt] else stmts))
      else split_loop cs buffer' stmts)"

definition split_statements :: "string \<Rightarrow> string list" where
  "split_statements text =
     (case split_loop text [] [] of
        (stmts, buffer) \<Rightarrow>
          if buffer \<noteq> [] then
            (let trailing = strip buffer in
             if trailing \<noteq> [] then stmts @ [trailing] else stmts)
          else stmts)"

definition is_ddl :: "string \<Rightarrow> bool" where
  "is_ddl statement = startswith (upper (lstrip statement)) ''CREATE TABLE''"

definition is_insert :: "string \<Rightarrow> bool" where
  "is_insert statement = startswith (upper (lstrip statement)) ''INSERT INTO''"

text \<open>The configuration constants, lines 30 to 40.\<close>

definition GROUPS :: "(string \<times> table list) list" where
  "GROUPS =
    [(''core'', [''roles'', ''permissions'', ''role_permissions'', ''positions'',
        ''role_positions'', ''users'', ''password_history'', ''password_reset_otps'',
        ''refresh_tokens'', ''mfa_role_settings'', ''mfa_verification_attempts'']),
     (''project'', [''projects'', ''project_users'', ''project_milestones'',
        ''project_files'', ''project_client_call_notes'', ''project_daily_status'',
        ''project_comments'', ''tasks'', ''task_comments'', ''task_history'', ''bugs'',
        ''bug_comments'', ''attachments'', ''timesheets'']),
     (''support'', [''employees'', ''employee_documents'', ''attendance'', ''leaves'',
        ''reimbursements'', ''holidays'', ''asset_categories'', ''assets'',
        ''asset_laptop_details'', ''asset_mobile_details'', ''asset_accessory_details'',
        ''asset_assignments'', ''asset_tickets'', ''asset_ticket_comments'',
        ''asset_ticket_attachments'', ''asset_audit_logs'', ''asset_maintenance'',
        ''asset_approvals'', ''inventory_items'', ''inventory_transactions'',
        ''inventory_attachments'']),
     (''misc'', [''notifications'', ''audit_logs'', ''settings'', ''fcm_tokens'',
        ''calendar_reminders''])]"

definition GROUP_ORDER :: "string list" where
  "GROUP_ORDER = [''core'', ''project'', ''support'', ''misc'']"

definition ALLOWED_SEED_TABLES :: "table list" where
  "ALLOWED_SEED_TABLES = [''roles'', ''permissions'', ''role_permissions'', ''positions'',
     ''role_positions'', ''settings'']"

definition LINE_LIMIT :: nat where
  "LINE_LIMIT = 600"


text \<open>
  What \<open>main\<close> accumulates: the two dictionaries keyed by group name, the seed list,
  and the text of the log file it appends to.
\<close>

record sstate =
  group_contents :: "string \<rightharpoonup> string"
  group_lines :: "string \<rightharpoonup> nat"
  seeds :: "string list"
  log_file :: string

text \<open>
  \<open>write_group_content\<close>, lines 68 to 74: the Boolean result and the updated
  dictionaries. Reading a key that a dictionary does not have raises \<open>KeyError\<close>.
\<close>

definition write_group_content ::
    "string \<Rightarrow> table \<Rightarrow> string \<Rightarrow> sstate \<Rightarrow> py_error + (bool \<times> sstate)" where
  "write_group_content grp table content st =
     (let lines = count_list content (CHR 0x0A) + 1 in
      case group_lines st grp of
        None \<Rightarrow> Inl KeyError
      | Some n \<Rightarrow>
          if n + lines > LINE_LIMIT then Inr (False, st)
          else
            (case group_contents st grp of
               None \<Rightarrow> Inl KeyError
             | Some body \<Rightarrow>
                 Inr (True,
                   st\<lparr>group_contents := (group_contents st)
                          (grp \<mapsto> (if body \<noteq> [] then body @ [CHR 0x0A, CHR 0x0A] @ content
                                   else content)),
                      group_lines := (group_lines st)(grp \<mapsto> n + lines)\<rparr>)))"

text \<open>\<open>assign_group\<close>, lines 76 to 80: the first group whose pool has the table.\<close>

fun assign_group_from :: "(string \<times> table list) list \<Rightarrow> table \<Rightarrow> string" where
  "assign_group_from [] table = ''misc''"
| "assign_group_from ((grp, pool) # rest) table =
     (if table \<in> set pool then grp else assign_group_from rest table)"

definition assign_group :: "table \<Rightarrow> string" where
  "assign_group table = assign_group_from GROUPS table"

text \<open>
  The \<open>while\<close> loop of lines 112 to 121. One pass through its body either places the
  block (\<open>break\<close>), raises \<open>SystemExit\<close>, or writes a line to the log and goes on with
  the next group index.
\<close>

datatype py_error_exit = Raised py_error | SystemExit string

datatype 'a loop_step = Break 'a | Continue 'a

definition exceeded_line :: "string \<Rightarrow> table \<Rightarrow> string \<Rightarrow> string" where
  "exceeded_line current_group table next_group =
     ''Exceeded '' @ decimal LINE_LIMIT @ '' lines in '' @ current_group
       @ '', moving '' @ table @ '' to '' @ next_group @ [CHR 0x0A]"

definition place_body ::
    "table \<Rightarrow> string \<Rightarrow> nat \<times> sstate \<Rightarrow> py_error_exit + (nat \<times> sstate) loop_step" where
  "place_body table ddl_block c =
     (case c of (group_index, st) \<Rightarrow>
        let current_group = GROUP_ORDER ! group_index in
        case write_group_content current_group table ddl_block st of
          Inl e \<Rightarrow> Inl (Raised e)
        | Inr (True, st') \<Rightarrow> Inr (Break (group_index, st'))
        | Inr (False, st') \<Rightarrow>
            if group_index + 1 \<ge> length GROUP_ORDER then
              Inl (SystemExit (''Line limit reached for all groups while placing '' @ table))
            else
              let next_group = GROUP_ORDER ! (group_index + 1) in
              Inr (Continue (group_index + 1,
                     st'\<lparr>log_file := log_file st'
                            @ exceeded_line current_group table next_group\<rparr>)))"

function place_loop ::
    "table \<Rightarrow> string \<Rightarrow> nat \<times> sstate \<Rightarrow> py_error_exit + (nat \<times> sstate)" where
  "place_loop table ddl_block (group_index, st) =
     (if group_index < length GROUP_ORDER then
        (case place_body table ddl_block (group_index, st) of
           Inl e \<Rightarrow> Inl e
         | Inr (Break c) \<Rightarrow> Inr c
         | Inr (Continue c) \<Rightarrow> place_loop table ddl_block c)
      else Inr (group_index, st))"
  by pat_completeness auto
termination
proof (relation "measure (\<lambda>(table, ddl_block, group_index, st). length GROUP_ORDER - group_index)")
  show "wf (measure (\<lambda>(table :: table, ddl_block :: string, group_index :: nat, st :: sstate).
              length GROUP_ORDER - group_index))"
    by simp
next
  fix table ddl_block :: string and group_index :: nat and st :: sstate
    and x :: "(nat \<times> sstate) loop_step" and c :: "nat \<times> sstate"
  assume lt: "group_index < length GROUP_ORDER"
    and body: "place_body table ddl_block (group_index, st) = Inr x"
    and x: "x = Continue c"
  from body x have "fst c = group_index + 1"
    by (auto simp: place_body_def Let_def split: sum.splits bool.splits if_splits prod.splits)
  with lt show "((table, ddl_block, c), (table, ddl_block, group_index, st))
      \<in> measure (\<lambda>(table, ddl_block, group_index, st). length GROUP_ORDER - group_index)"
    by (cases c) auto
qed

declare place_loop.simps [simp del]


text \<open>
  The body of the loop over the resolved order, lines 100 to 125. The extraction
  directory is a map from the table name to the text of its file.
\<close>

definition collect_seeds :: "table \<Rightarrow> string list \<Rightarrow> sstate \<Rightarrow> sstate" where
  "collect_seeds table insert_statements st =
     fold (\<lambda>insert_stmt s.
             if table \<in> set ALLOWED_SEED_TABLES then s\<lparr>seeds := seeds s @ [insert_stmt]\<rparr>
             else s)
          insert_statements st"

definition process_table ::
    "(table \<rightharpoonup> string) \<Rightarrow> table \<Rightarrow> sstate \<Rightarrow> py_error_exit + sstate" where
  "process_table files table st =
     (case files table of
        None \<Rightarrow> Inr st
      | Some text \<Rightarrow>
          let statements = split_statements text;
              ddl_statements = filter is_ddl statements;
              insert_statements = filter is_insert statements
          in if ddl_statements = [] then Inr st
             else
               let ddl_block = join [CHR 0x0A, CHR 0x0A] ddl_statements;
                   target_group = assign_group table
               in case list_index GROUP_ORDER target_group of
                    None \<Rightarrow> Inl (Raised ValueError)
                  | Some group_index \<Rightarrow>
                      (case place_loop table ddl_block (group_index, st) of
                         Inl e \<Rightarrow> Inl e
                       | Inr (_, st') \<Rightarrow> Inr (collect_seeds table insert_statements st')))"

definition init_sstate :: "string \<Rightarrow> sstate" where
  "init_sstate lg =
     \<lparr>group_contents = map_of (map (\<lambda>grp. (grp, [])) GROUP_ORDER),
      group_lines = map_of (map (\<lambda>grp. (grp, 0)) GROUP_ORDER),
      seeds = [],
      log_file = lg\<rparr>"

definition main_loop ::
    "(table \<rightharpoonup> string) \<Rightarrow> table list \<Rightarrow> string \<Rightarrow> py_error_exit + sstate" where
  "main_loop files order lg = for_each (process_table files) order (init_sstate lg)"

text \<open>
  The files the script writes: the five output files, keyed as in \<open>OUTPUT_FILES\<close>, and
  the log file. Lines 127 to 135 write the output files.
\<close>

record disk =
  output_files :: "string \<rightharpoonup> string"
  log_text :: string

definition OUTPUT_KEYS :: "string list" where
  "OUTPUT_KEYS = [''core'', ''project'', ''support'', ''misc'', ''seed'']"

definition write_output ::
    "sstate \<Rightarrow> string \<Rightarrow> (string \<rightharpoonup> string) \<Rightarrow> py_error_exit + (string \<rightharpoonup> string)" where
  "write_output st grp out =
     (if grp = ''seed'' then
        Inr (out(grp \<mapsto> ''-- Seed file (DDL stripped)'' @ [CHR 0x0A]
                          @ join [CHR 0x0A, CHR 0x0A] (seeds st)))
      else
        (case group_contents st grp of
           None \<Rightarrow> Inl (Raised KeyError)
         | Some body \<Rightarrow>
             if body = [] then Inr (out(grp \<mapsto> ''-- '' @ grp @ '' schema pending'' @ [CHR 0x0A]))
             else Inr (out(grp \<mapsto> body))))"

definition main :: "(table \<rightharpoonup> string) \<Rightarrow> table list \<Rightarrow> disk \<Rightarrow> py_error_exit + disk" where
  "main files order d =
     (case main_loop files order (log_text d) of
        Inl e \<Rightarrow> Inl e
      | Inr st \<Rightarrow>
          (case for_each (write_output st) OUTPUT_KEYS (output_files d) of
             Inl e \<Rightarrow> Inl e
           | Inr out \<Rightarrow> Inr \<lparr>output_files = out, log_text = log_file st\<rparr>))"

text \<open>\<open>prepare_group_files\<close>, lines 86 to 89, empties every output file and the log.\<close>

definition prepare_group_files :: "disk \<Rightarrow> disk" where
  "prepare_group_files d =
     \<lparr>output_files = fold (\<lambda>key out. out(key \<mapsto> [])) OUTPUT_KEYS (output_files d),
      log_text = []\<rparr>"

text \<open>
  Running the file as a script executes its two \<open>__main__\<close> blocks, lines 137 to 142:
  \<open>prepare_group_files(); main()\<close> and then \<open>main()\<close> once more.
\<close>

definition script :: "(table \<rightharpoonup> string) \<Rightarrow> table list \<Rightarrow> disk \<Rightarrow> py_error_exit + disk" where
  "script files order d =
     (case main files order (prepare_group_files d) of
        Inl e \<Rightarrow> Inl e
      | Inr d' \<Rightarrow> main files order d')"

text \<open>\<open>log_reassignment\<close>, lines 82 to 84. No line of the file calls it.\<close>

definition log_reassignment :: "table \<Rightarrow> string \<Rightarrow> string \<Rightarrow> string \<Rightarrow> string" where
  "log_reassignment table from_group to_group lg =
     lg @ ''Table '' @ table @ '' moved from '' @ from_group @ '' to '' @ to_group @ [CHR 0x0A]"

section \<open>The two scripts in sequence\<close>

text \<open>
  The resolver runs on the listing of the extraction directory; the splitter then reads
  the order it wrote and the same files by name. What a run leaves behind is the
  order, the report, the five output files and the log.
\<close>

definition pipeline ::
    "(string \<Rightarrow> table list) \<Rightarrow> (table \<times> string) list \<Rightarrow> disk
      \<Rightarrow> py_error_exit + (table list \<times> string \<times> disk)" where
  "pipeline find_refs listing d =
     (case resolver_main find_refs listing of
        Inl e \<Rightarrow> Inl (Raised e)
      | Inr (order, report) \<Rightarrow>
          (case script (map_of listing) order d of
             Inl e \<Rightarrow> Inl e
           | Inr d' \<Rightarrow> Inr (order, report, d')))"

definition observe ::
    "table list \<times> string \<times> disk \<Rightarrow> table list \<times> string \<times> string option list \<times> string" where
  "observe r = (case r of (order, report, d) \<Rightarrow>
     (order, report, map (output_files d) OUTPUT_KEYS, log_text d))"

section \<open>Vocabulary of the properties\<close>

subsection \<open>Resolver\<close>

text \<open>
  \<open>precedes xs d t\<close>: some occurrence of \<open>t\<close> in \<open>xs\<close> has \<open>d\<close> before it.
  \<open>in_cycle_together cyc t d\<close>: one reported cycle mentions both tables.
\<close>

definition precedes :: "'a list \<Rightarrow> 'a \<Rightarrow> 'a \<Rightarrow> bool" where
  "precedes xs d t \<longleftrightarrow> (\<exists>ys zs. xs = ys @ t # zs \<and> d \<in> set ys)"

definition in_cycle_together :: "table list list \<Rightarrow> table \<Rightarrow> table \<Rightarrow> bool" where
  "in_cycle_together cyc t d \<longleftrightarrow> (\<exists>c \<in> set cyc. t \<in> set c \<and> d \<in> set c)"

text \<open>
  The invariants of the traversal. \<open>rinv\<close>: the resolved list holds the finished
  nodes, each once, and no node is both in progress and finished. \<open>topo\<close>: every
  dependency of a resolved table stands before it, or a reported cycle holds both.
\<close>

definition rinv :: "rstate \<Rightarrow> bool" where
  "rinv st \<longleftrightarrow> set (resolved st) = visited st \<and> distinct (resolved st)
     \<and> temp st \<inter> visited st = {}"

definition topo :: "graph \<Rightarrow> rstate \<Rightarrow> bool" where
  "topo g st \<longleftrightarrow>
     (\<forall>t \<in> set (resolved st). \<forall>d \<in> set (sorted_deps g t).
        precedes (resolved st) d t \<or> in_cycle_together (cycle_report st) t d)"

text \<open>
  \<open>finish\<close> is the end of \<open>visit\<close> (lines 51 to 53) as a state update;
  \<open>dep_settled\<close> and \<open>visit_post\<close> say what a call of \<open>visit\<close> has achieved when it
  returns, \<open>pre\<close> being the stack without its last entry.
\<close>

definition finish :: "table \<Rightarrow> rstate \<Rightarrow> rstate" where
  "finish node st = st\<lparr>temp := temp st - {node}, visited := insert node (visited st),
                       resolved := resolved st @ [node]\<rparr>"

definition dep_settled :: "rstate \<Rightarrow> table \<Rightarrow> table \<Rightarrow> bool" where
  "dep_settled st t d \<longleftrightarrow> d \<in> visited st \<or> in_cycle_together (cycle_report st) t d"

definition visit_post :: "graph \<Rightarrow> table \<Rightarrow> table list \<Rightarrow> rstate \<Rightarrow> rstate \<Rightarrow> bool" where
  "visit_post g node pre st st' \<longleftrightarrow>
     rinv st' \<and> topo g st' \<and> temp st' = temp st \<and> visited st \<subseteq> visited st'
     \<and> set (cycle_report st) \<subseteq> set (cycle_report st')
     \<and> (node \<in> visited st' \<or> (pre \<noteq> [] \<and> in_cycle_together (cycle_report st') (last pre) node))"

text \<open>What the graph holds for a file with the given text.\<close>

definition graph_entry :: "(string \<Rightarrow> table list) \<Rightarrow> string \<Rightarrow> table fset option" where
  "graph_entry find_refs body =
     (if contains ''CREATE TABLE'' body then Some (parse_fks find_refs body) else None)"

subsection \<open>Group assignor\<close>

text \<open>
  \<open>block_lines\<close> is the line count \<open>write_group_content\<close> computes, \<open>fits\<close> its
  budget test and \<open>placed\<close> the state after a successful placement. \<open>wf_state\<close>: both
  dictionaries have every group of \<open>GROUP_ORDER\<close> as a key. \<open>lines_ok\<close>: every
  group's accumulated line count is within the limit.
\<close>

definition block_lines :: "string \<Rightarrow> nat" where
  "block_lines content = count_list content (CHR 0x0A) + 1"

definition wf_state :: "sstate \<Rightarrow> bool" where
  "wf_state st \<longleftrightarrow>
     (\<forall>grp \<in> set GROUP_ORDER. group_lines st grp \<noteq> None \<and> group_contents st grp \<noteq> None)"

definition lines_ok :: "sstate \<Rightarrow> bool" where
  "lines_ok st \<longleftrightarrow>
     (\<forall>grp \<in> set GROUP_ORDER. \<exists>n. group_lines st grp = Some n \<and> n \<le> LINE_LIMIT)"

definition fits :: "sstate \<Rightarrow> string \<Rightarrow> string \<Rightarrow> bool" where
  "fits st grp content =
     (case group_lines st grp of
        None \<Rightarrow> False
      | Some n \<Rightarrow> n + block_lines content \<le> LINE_LIMIT)"

definition placed :: "sstate \<Rightarrow> string \<Rightarrow> string \<Rightarrow> sstate" where
  "placed st grp content =
     st\<lparr>group_contents := (group_contents st)
            (grp \<mapsto> (if the (group_contents st grp) \<noteq> []
                     then the (group_contents st grp) @ [CHR 0x0A, CHR 0x0A] @ content
                     else content)),
        group_lines := (group_lines st)(grp \<mapsto> the (group_lines st grp) + block_lines content)\<rparr>"

text \<open>
  The lines the loop writes when a table moves from group index \<open>i\<close> up to \<open>j\<close>,
  and the text of the fatal exit.
\<close>

definition cascade_log :: "table \<Rightarrow> nat \<Rightarrow> nat \<Rightarrow> string" where
  "cascade_log table i j =
     concat (map (\<lambda>k. exceeded_line (GROUP_ORDER ! k) table (GROUP_ORDER ! (k + 1))) [i..<j])"

definition event_line :: "table \<times> nat \<Rightarrow> string" where
  "event_line ev = (case ev of (table, k) \<Rightarrow>
     exceeded_line (GROUP_ORDER ! k) table (GROUP_ORDER ! (k + 1)))"

definition cascade_events :: "table \<Rightarrow> nat \<Rightarrow> nat \<Rightarrow> (table \<times> nat) list" where
  "cascade_events table i j = map (\<lambda>k. (table, k)) [i..<j]"

definition exit_message :: "table \<Rightarrow> string" where
  "exit_message table = ''Line limit reached for all groups while placing '' @ table"

text \<open>
  The statements of a file as \<open>main\<close> selects them, the index of the group
  \<open>assign_group\<close> prefers, and the tables that no membership list names.
\<close>

definition ddl_statements_of :: "string \<Rightarrow> string list" where
  "ddl_statements_of text = filter is_ddl (split_statements text)"

definition insert_statements_of :: "string \<Rightarrow> string list" where
  "insert_statements_of text = filter is_insert (split_statements text)"

definition ddl_block_of :: "string \<Rightarrow> string" where
  "ddl_block_of text = join [CHR 0x0A, CHR 0x0A] (ddl_statements_of text)"

definition preferred_index :: "table \<Rightarrow> nat" where
  "preferred_index table =
     (case list_index GROUP_ORDER (assign_group table) of None \<Rightarrow> 0 | Some i \<Rightarrow> i)"

definition on_no_list :: "table \<Rightarrow> bool" where
  "on_no_list table \<longleftrightarrow> (\<forall>(grp, pool) \<in> set GROUPS. table \<notin> set pool)"

text \<open>
  \<open>seed_contribution\<close>: the statements one table adds to the seed list.
  \<open>stmt_shape\<close>: what every statement that \<open>split_statements\<close> returns looks
  like: not empty, no white space at its end, and no semicolon but at its end.
  \<open>ddl_stmt\<close>: such a statement that \<open>is_ddl\<close> accepts. \<open>joined_ddl\<close>: a text
  that is one or more of these joined by blank lines. \<open>groups_ok\<close>: every group's
  text is empty or such a text. \<open>end_buf\<close>: the buffer of \<open>split_statements\<close>
  between two statements of such a text.
\<close>

definition seed_contribution :: "(table \<rightharpoonup> string) \<Rightarrow> table \<Rightarrow> string list" where
  "seed_contribution files table =
     (case files table of
        None \<Rightarrow> []
      | Some text \<Rightarrow>
          if ddl_statements_of text \<noteq> [] \<and> table \<in> set ALLOWED_SEED_TABLES
          then insert_statements_of text else [])"

definition stmt_shape :: "string \<Rightarrow> bool" where
  "stmt_shape s \<longleftrightarrow> s \<noteq> [] \<and> \<not> is_space (last s) \<and> CHR '';'' \<notin> set (butlast s)"

definition ddl_stmt :: "string \<Rightarrow> bool" where
  "ddl_stmt s \<longleftrightarrow>
     is_ddl s \<and> s \<noteq> [] \<and> \<not> is_space (last s) \<and> CHR '';'' \<notin> set (butlast s)"

definition joined_ddl :: "string \<Rightarrow> bool" where
  "joined_ddl body \<longleftrightarrow>
     (\<exists>stmts. stmts \<noteq> [] \<and> body = join [CHR 0x0A, CHR 0x0A] stmts
        \<and> (\<forall>s \<in> set stmts. ddl_stmt s))"

definition end_buf :: "string \<Rightarrow> bool" where
  "end_buf b \<longleftrightarrow> b = [] \<or> (is_ddl b \<and> \<not> is_space (last b))"

text \<open>
  \<open>seed_started\<close>: a text that begins, after white space, with an insertion
  statement or with a comment, as every statement of the seed file does.
\<close>

definition seed_started :: "string \<Rightarrow> bool" where
  "seed_started b \<longleftrightarrow> is_insert b \<or> startswith (lstrip b) ''--''"

definition groups_ok :: "sstate \<Rightarrow> bool" where
  "groups_ok st \<longleftrightarrow>
     (\<forall>grp \<in> set GROUP_ORDER. \<forall>body. group_contents st grp = Some body \<longrightarrow>
        body = [] \<or> joined_ddl body)"

definition sinv :: "sstate \<Rightarrow> bool" where
  "sinv st \<longleftrightarrow> wf_state st \<and> lines_ok st \<and> groups_ok st"

text \<open>The contents of the output files in terms of the final state.\<close>

definition placeholder :: "string \<Rightarrow> string" where
  "placeholder grp = ''-- '' @ grp @ '' schema pending'' @ [CHR 0x0A]"

definition seed_header :: string where
  "seed_header = ''-- Seed file (DDL stripped)'' @ [CHR 0x0A]"

definition group_file :: "sstate \<Rightarrow> string \<Rightarrow> string option" where
  "group_file st grp =
     (case group_contents st grp of
        None \<Rightarrow> None
      | Some body \<Rightarrow> Some (if body = [] then placeholder grp else body))"

definition seed_file :: "sstate \<Rightarrow> string" where
  "seed_file st = seed_header @ join [CHR 0x0A, CHR 0x0A] (seeds st)"

section \<open>Example inputs\<close>

text \<open>
  A structural statement of \<open>n + 1\<close> lines, and an extraction directory with two
  tables of the \<open>core\<close> group whose statements together exceed the limit.
\<close>

definition big_table :: "nat \<Rightarrow> string" where
  "big_table n = ''CREATE TABLE t ('' @ replicate n (CHR 0x0A) @ '');''"

definition cascade_files :: "table \<rightharpoonup> string" where
  "cascade_files = [''roles'' \<mapsto> big_table 599, ''users'' \<mapsto> big_table 0]"

text \<open>
  Dependency graphs: a table with one foreign key, two tables that reference each
  other, and a table that references itself, a second table and, through it, a table
  that is no key of the graph.
\<close>

definition example_graph_roles :: graph where
  "example_graph_roles =
     fmap_of_list [(''roles'', {||}), (''role_permissions'', {|''roles''|})]"

definition example_graph_cycle :: graph where
  "example_graph_cycle = fmap_of_list [(''a'', {|''b''|}), (''b'', {|''a''|})]"

definition example_graph_selfref :: graph where
  "example_graph_selfref =
     fmap_of_list [(''a'', {|''a'', ''b''|}), (''b'', {|''a'', ''c''|})]"

text \<open>
  States in which one group holds 600 lines already, and a directory whose only table
  has a statement of 601 lines.
\<close>

definition core_full :: sstate where
  "core_full = placed (init_sstate []) ''core'' (big_table 599)"

definition misc_full :: sstate where
  "misc_full = placed (init_sstate []) ''misc'' (big_table 599)"

definition oversize_files :: "table \<rightharpoonup> string" where
  "oversize_files = [''roles'' \<mapsto> big_table 600]"

text \<open>A directory with one table that no membership list names.\<close>

definition unlisted_files :: "table \<rightharpoonup> string" where
  "unlisted_files = [''extra_notes'' \<mapsto> big_table 0]"

text \<open>
  What is on disk before a run: a log left by an earlier run, or nothing. Two listings
  of one directory in different orders, with a scan that finds no foreign key.
\<close>

definition stale_disk :: disk where
  "stale_disk = \<lparr>output_files = Map.empty,
                  log_text = ''Table tasks moved from project to support'' @ [CHR 0x0A]\<rparr>"

definition blank_disk :: disk where
  "blank_disk = \<lparr>output_files = Map.empty, log_text = []\<rparr>"

definition no_fk :: "string \<Rightarrow> table list" where
  "no_fk content = []"

definition listing_a :: "(table \<times> string) list" where
  "listing_a = [(''roles'', big_table 0), (''users'', big_table 0)]"

definition listing_b :: "(table \<times> string) list" where
  "listing_b = [(''users'', big_table 0), (''roles'', big_table 0)]"

text \<open>
  A file of an allow-listed table with an insertion statement and no structural
  statement, whose text still contains the words \<open>CREATE TABLE\<close>; and a directory with
  an allow-listed table, a table that is not allow-listed, and a table that has
  only an insertion statement.
\<close>

definition ghost_text :: string where
  "ghost_text = ''INSERT INTO roles VALUES (1); -- CREATE TABLE follows''"

definition ghost_files :: "table \<rightharpoonup> string" where
  "ghost_files = [''roles'' \<mapsto> ghost_text]"

definition seed_files :: "table \<rightharpoonup> string" where
  "seed_files =
     [''settings'' \<mapsto> ''CREATE TABLE settings (id int);'' @ [CHR 0x0A]
                         @ ''INSERT INTO settings VALUES (1);'',
      ''users'' \<mapsto> ''CREATE TABLE users (id int);'' @ [CHR 0x0A]
                      @ ''INSERT INTO users VALUES (2);'',
      ''orphan_log'' \<mapsto> ''INSERT INTO orphan_log VALUES (3);'']"

section \<open>Auxiliary lemmas\<close>

subsection \<open>Resolver\<close>

lemma ffUnion_memI:
  assumes "d |\<in>| ds" "ds |\<in>| S"
  shows "d |\<in>| ffUnion S"
proof -
  have "fBall S (\<lambda>x. x |\<subseteq>| ffUnion S)"
    using ffUnion_fsubset_iff[of S "ffUnion S"] by simp
  with assms(2) have "ds |\<subseteq>| ffUnion S" by blast
  with assms(1) show ?thesis by blast
qed

lemma sorted_deps_set:
  "set (sorted_deps g t) = (case fmlookup g t of None \<Rightarrow> {} | Some ds \<Rightarrow> fset ds)"
  by (simp add: sorted_deps_def split: option.splits)

lemma sorted_deps_names: "d \<in> set (sorted_deps g t) \<Longrightarrow> d |\<in>| all_names g"
  by (auto simp: sorted_deps_set all_names_def split: option.splits
      intro: ffUnion_memI fmranI)

lemma fmdom_names: "t |\<in>| fmdom g \<Longrightarrow> t |\<in>| all_names g"
  by (simp add: all_names_def)

lemma list_index_Some:
  "list_index xs x = Some i \<Longrightarrow> i < length xs \<and> xs ! i = x \<and> x \<notin> set (take i xs)"
proof (induction xs arbitrary: i)
  case Nil
  then show ?case by simp
next
  case (Cons y ys)
  show ?case
  proof (cases "y = x")
    case True
    with Cons.prems show ?thesis by simp
  next
    case False
    with Cons.prems obtain j where j: "list_index ys x = Some j" "i = Suc j"
      by auto
    from Cons.IH[OF j(1)] False j(2) show ?thesis by simp
  qed
qed

lemma list_index_prefix:
  "x \<in> set pre \<Longrightarrow> \<exists>i. list_index (pre @ ys) x = Some i \<and> i < length pre"
  by (induction pre) auto

lemma list_index_at:
  "t \<notin> set ys \<Longrightarrow> list_index (ys @ t # zs) t = Some (length ys)"
  by (induction ys) auto

lemma precedes_index:
  assumes "precedes xs d t" "distinct xs"
  shows "\<exists>i j. list_index xs d = Some i \<and> list_index xs t = Some j \<and> i < j"
proof -
  from assms(1) obtain ys zs where xs: "xs = ys @ t # zs" and d: "d \<in> set ys"
    by (auto simp: precedes_def)
  from assms(2) xs have "t \<notin> set ys" by auto
  then have "list_index xs t = Some (length ys)"
    unfolding xs by (rule list_index_at)
  moreover from list_index_prefix[OF d, of "t # zs"] xs
  obtain i where "list_index xs d = Some i" "i < length ys" by auto
  ultimately show ?thesis by blast
qed

lemma precedes_append:
  assumes "precedes xs d t"
  shows "precedes (xs @ zs) d t"
proof -
  from assms obtain ys zs' where "xs = ys @ t # zs'" "d \<in> set ys"
    by (auto simp: precedes_def)
  then have "xs @ zs = ys @ t # (zs' @ zs) \<and> d \<in> set ys" by simp
  then show ?thesis unfolding precedes_def by blast
qed

lemma precedes_snoc: "d \<in> set xs \<Longrightarrow> precedes (xs @ [t]) d t"
  by (auto simp: precedes_def)

lemma in_cycle_together_mono:
  "in_cycle_together cyc t d \<Longrightarrow> set cyc \<subseteq> set cyc' \<Longrightarrow> in_cycle_together cyc' t d"
  by (auto simp: in_cycle_together_def)

lemma dep_settled_mono:
  "dep_settled st t d \<Longrightarrow> visited st \<subseteq> visited st' \<Longrightarrow>
   set (cycle_report st) \<subseteq> set (cycle_report st') \<Longrightarrow> dep_settled st' t d"
  unfolding dep_settled_def using in_cycle_together_mono by blast

lemma rinv_report: "rinv (st\<lparr>cycle_report := c\<rparr>) = rinv st"
  by (simp add: rinv_def)

lemma topo_report:
  assumes "topo g st"
  shows "topo g (st\<lparr>cycle_report := cycle_report st @ [c]\<rparr>)"
  unfolding topo_def
proof (intro ballI)
  fix t d
  assume "t \<in> set (resolved (st\<lparr>cycle_report := cycle_report st @ [c]\<rparr>))"
    and "d \<in> set (sorted_deps g t)"
  then have "precedes (resolved st) d t \<or> in_cycle_together (cycle_report st) t d"
    using assms by (simp add: topo_def)
  then show "precedes (resolved (st\<lparr>cycle_report := cycle_report st @ [c]\<rparr>)) d t
      \<or> in_cycle_together (cycle_report (st\<lparr>cycle_report := cycle_report st @ [c]\<rparr>)) t d"
    by (auto simp: in_cycle_together_def)
qed

lemma rinv_enter: "rinv st \<Longrightarrow> node \<notin> visited st \<Longrightarrow> rinv (st\<lparr>temp := insert node (temp st)\<rparr>)"
  by (auto simp: rinv_def)

lemma topo_enter: "topo g (st\<lparr>temp := T\<rparr>) = topo g st"
  by (simp add: topo_def)

lemma rinv_finish:
  assumes "rinv st" "node \<in> temp st"
  shows "rinv (finish node st)"
proof -
  from assms have "node \<notin> visited st" by (auto simp: rinv_def)
  with assms(1) show ?thesis by (auto simp: rinv_def finish_def)
qed

lemma topo_finish:
  assumes "topo g st" "rinv st"
    and "\<forall>d \<in> set (sorted_deps g node). dep_settled st node d"
  shows "topo g (finish node st)"
  unfolding topo_def
proof (intro ballI)
  fix t d
  assume t: "t \<in> set (resolved (finish node st))" and d: "d \<in> set (sorted_deps g t)"
  have res: "resolved (finish node st) = resolved st @ [node]"
    and cyc: "cycle_report (finish node st) = cycle_report st"
    by (simp_all add: finish_def)
  show "precedes (resolved (finish node st)) d t
      \<or> in_cycle_together (cycle_report (finish node st)) t d"
  proof (cases "t \<in> set (resolved st)")
    case True
    with assms(1) d have "precedes (resolved st) d t \<or> in_cycle_together (cycle_report st) t d"
      by (simp add: topo_def)
    then show ?thesis unfolding res cyc by (auto intro: precedes_append)
  next
    case False
    with t have tn: "t = node" by (simp add: res)
    with assms(3) d have "dep_settled st node d" by blast
    then have "d \<in> set (resolved st) \<or> in_cycle_together (cycle_report st) node d"
      using assms(2) by (simp add: dep_settled_def rinv_def)
    then show ?thesis unfolding res cyc tn by (auto intro: precedes_snoc)
  qed
qed

lemma cycle_contains:
  assumes "list_index (pre @ [node]) node = Some i" "i < length pre"
  shows "last pre \<in> set (drop i (pre @ [node]) @ [node])"
proof -
  from assms(2) have "drop i pre \<noteq> []" by simp
  then have "last (drop i pre) \<in> set (drop i pre)" by (rule last_in_set)
  moreover from assms(2) have "last (drop i pre) = last pre" by simp
  ultimately show ?thesis using assms(2) by simp
qed

lemma visit_deps_spec:
  assumes IH: "\<And>dep pre' st. \<lbrakk>card (A - temp st) < n; dep \<in> A; temp st \<subseteq> set pre';
                  rinv st; topo g st\<rbrakk>
            \<Longrightarrow> \<exists>st'. visit n g dep (pre' @ [dep]) st = Inr st' \<and> visit_post g dep pre' st st'"
    and "set ds \<subseteq> A" "card (A - temp st1) < n" "temp st1 \<subseteq> set stack" "stack \<noteq> []"
    and "rinv st1" "topo g st1"
  shows "\<exists>st2. for_each (\<lambda>dep. visit n g dep (stack @ [dep])) ds st1 = Inr st2
           \<and> rinv st2 \<and> topo g st2 \<and> temp st2 = temp st1 \<and> visited st1 \<subseteq> visited st2
           \<and> set (cycle_report st1) \<subseteq> set (cycle_report st2)
           \<and> (\<forall>d \<in> set ds. dep_settled st2 (last stack) d)"
  using assms(2-)
proof (induction ds arbitrary: st1)
  case Nil
  then show ?case by simp
next
  case (Cons d ds)
  from Cons.prems have dA: "d \<in> A" and dsA: "set ds \<subseteq> A" by auto
  from IH[OF Cons.prems(2) dA Cons.prems(3) Cons.prems(5) Cons.prems(6)]
  obtain sa where sa: "visit n g d (stack @ [d]) st1 = Inr sa"
    and post: "visit_post g d stack st1 sa" by blast
  from post have pa: "rinv sa" "topo g sa" "temp sa = temp st1" "visited st1 \<subseteq> visited sa"
    "set (cycle_report st1) \<subseteq> set (cycle_report sa)"
    and settled: "dep_settled sa (last stack) d"
    using Cons.prems(4) by (auto simp: visit_post_def dep_settled_def)
  from Cons.IH[OF dsA _ _ Cons.prems(4) pa(1) pa(2)] Cons.prems(2,3) pa(3)
  obtain sb where sb: "for_each (\<lambda>dep. visit n g dep (stack @ [dep])) ds sa = Inr sb"
    and pb: "rinv sb" "topo g sb" "temp sb = temp sa" "visited sa \<subseteq> visited sb"
    "set (cycle_report sa) \<subseteq> set (cycle_report sb)"
    "\<forall>d \<in> set ds. dep_settled sb (last stack) d"
    by auto
  from settled pb(4,5) have "dep_settled sb (last stack) d" by (rule dep_settled_mono)
  with sa sb pa pb show ?case by auto
qed

lemma visit_spec:
  assumes "finite A" "\<And>t. set (sorted_deps g t) \<subseteq> A"
  shows "\<lbrakk>card (A - temp st) < n; node \<in> A; temp st \<subseteq> set pre; rinv st; topo g st\<rbrakk>
     \<Longrightarrow> \<exists>st'. visit n g node (pre @ [node]) st = Inr st' \<and> visit_post g node pre st st'"
proof (induction n arbitrary: node pre st)
  case 0
  then show ?case by simp
next
  case (Suc n)
  show ?case
  proof (cases "node \<in> visited st")
    case True
    with Suc.prems show ?thesis by (simp add: visit_post_def)
  next
    case nv: False
    show ?thesis
    proof (cases "node \<in> temp st")
      case True
      with Suc.prems(3) have "node \<in> set pre" by blast
      from list_index_prefix[OF this, of "[node]"]
      obtain i where i: "list_index (pre @ [node]) node = Some i" "i < length pre" by blast
      let ?c = "drop i (pre @ [node]) @ [node]"
      let ?st = "st\<lparr>cycle_report := cycle_report st @ [?c]\<rparr>"
      have v: "visit (Suc n) g node (pre @ [node]) st = Inr ?st"
        using nv True i(1) by simp
      have "last pre \<in> set ?c" using i by (rule cycle_contains)
      then have "in_cycle_together (cycle_report ?st) (last pre) node"
        by (simp add: in_cycle_together_def)
      moreover have "pre \<noteq> []" using i(2) by auto
      moreover have "rinv ?st" using Suc.prems(4) by (simp add: rinv_report)
      moreover have "topo g ?st" using Suc.prems(5) by (rule topo_report)
      ultimately have "visit_post g node pre st ?st"
        by (auto simp: visit_post_def)
      with v show ?thesis by blast
    next
      case nt: False
      let ?s1 = "st\<lparr>temp := insert node (temp st)\<rparr>"
      have "A - temp ?s1 \<subset> A - temp st" using Suc.prems(2) nt by auto
      then have "card (A - temp ?s1) < card (A - temp st)"
        using assms(1) by (intro psubset_card_mono) auto
      with Suc.prems(1) have c1: "card (A - temp ?s1) < n" by simp
      have t1: "temp ?s1 \<subseteq> set (pre @ [node])" using Suc.prems(3) by auto
      have r1: "rinv ?s1" using Suc.prems(4) nv by (rule rinv_enter)
      have o1: "topo g ?s1" using Suc.prems(5) by (simp add: topo_enter)
      from visit_deps_spec[of A n g "sorted_deps g node" ?s1 "pre @ [node]",
          OF Suc.IH assms(2) c1 t1 _ r1 o1]
      obtain s2 where s2: "for_each (\<lambda>dep. visit n g dep ((pre @ [node]) @ [dep]))
            (sorted_deps g node) ?s1 = Inr s2"
        and p2: "rinv s2" "topo g s2" "temp s2 = temp ?s1" "visited ?s1 \<subseteq> visited s2"
        "set (cycle_report ?s1) \<subseteq> set (cycle_report s2)"
        "\<forall>d \<in> set (sorted_deps g node). dep_settled s2 node d"
        by auto
      have nin: "node \<in> temp s2" using p2(3) by simp
      have v: "visit (Suc n) g node (pre @ [node]) st = Inr (finish node s2)"
        using nv nt s2 nin by (simp add: finish_def)
      have "rinv (finish node s2)" using p2(1) nin by (rule rinv_finish)
      moreover have "topo g (finish node s2)" using p2(2) p2(1) p2(6) by (rule topo_finish)
      moreover have "temp (finish node s2) = temp st" using p2(3) nt by (auto simp: finish_def)
      moreover have "visited st \<subseteq> visited (finish node s2)" using p2(4) by (auto simp: finish_def)
      moreover have "set (cycle_report st) \<subseteq> set (cycle_report (finish node s2))"
        using p2(5) by (simp add: finish_def)
      moreover have "node \<in> visited (finish node s2)" by (simp add: finish_def)
      ultimately have "visit_post g node pre st (finish node s2)"
        by (simp add: visit_post_def)
      with v show ?thesis by blast
    qed
  qed
qed

lemma visit_roots_spec:
  assumes V: "\<And>t st. \<lbrakk>t \<in> A; temp st = {}; rinv st; topo g st\<rbrakk>
            \<Longrightarrow> \<exists>st'. visit n g t [t] st = Inr st' \<and> visit_post g t [] st st'"
    and "set ts \<subseteq> A" "temp st1 = {}" "rinv st1" "topo g st1"
  shows "\<exists>st2. for_each (\<lambda>t. visit n g t [t]) ts st1 = Inr st2
           \<and> rinv st2 \<and> topo g st2 \<and> temp st2 = {} \<and> visited st1 \<subseteq> visited st2
           \<and> set ts \<subseteq> visited st2"
  using assms(2-)
proof (induction ts arbitrary: st1)
  case Nil
  then show ?case by simp
next
  case (Cons t ts)
  from Cons.prems have tA: "t \<in> A" and tsA: "set ts \<subseteq> A" by auto
  from V[OF tA Cons.prems(2) Cons.prems(3) Cons.prems(4)]
  obtain sa where sa: "visit n g t [t] st1 = Inr sa" and post: "visit_post g t [] st1 sa"
    by blast
  from post Cons.prems(2) have pa: "rinv sa" "topo g sa" "temp sa = {}"
    "visited st1 \<subseteq> visited sa" "t \<in> visited sa"
    by (auto simp: visit_post_def)
  from Cons.IH[OF tsA pa(3) pa(1) pa(2)]
  obtain sb where sb: "for_each (\<lambda>t. visit n g t [t]) ts sa = Inr sb"
    and pb: "rinv sb" "topo g sb" "temp sb = {}" "visited sa \<subseteq> visited sb"
    "set ts \<subseteq> visited sb"
    by auto
  with sa pa show ?case by auto
qed

lemma rinv_init: "rinv init_rstate"
  by (simp add: rinv_def init_rstate_def)

lemma topo_init: "topo g init_rstate"
  by (simp add: topo_def init_rstate_def)

lemma resolve_with_spec:
  assumes "fcard (all_names g) < fuel"
  shows "\<exists>res cyc. resolve_with fuel g = Inr (res, cyc) \<and> distinct res
           \<and> fset (fmdom g) \<subseteq> set res
           \<and> (\<forall>t \<in> set res. \<forall>d \<in> set (sorted_deps g t).
                 precedes res d t \<or> in_cycle_together cyc t d)"
proof -
  let ?A = "fset (all_names g)"
  have fin: "finite ?A" by simp
  have deps: "\<And>t. set (sorted_deps g t) \<subseteq> ?A"
    using sorted_deps_names by blast
  have V: "\<exists>st'. visit fuel g t [t] st = Inr st' \<and> visit_post g t [] st st'"
    if "t \<in> ?A" "temp st = {}" "rinv st" "topo g st" for t st
  proof -
    have "card (?A - temp st) < fuel"
      using assms that(2) by (simp add: fcard.rep_eq)
    from visit_spec[OF fin deps this that(1) _ that(3) that(4), of "[]"] that(2)
    show ?thesis by simp
  qed
  have roots: "set (sorted_list_of_fset (fmdom g)) \<subseteq> ?A"
    using fmdom_names by auto
  from visit_roots_spec[where A = ?A and n = fuel and g = g, OF V roots _ rinv_init topo_init]
  obtain st where st: "for_each (\<lambda>t. visit fuel g t [t]) (sorted_list_of_fset (fmdom g))
        init_rstate = Inr st"
    and p: "rinv st" "topo g st" "set (sorted_list_of_fset (fmdom g)) \<subseteq> visited st"
    by (auto simp: init_rstate_def)
  have "resolve_with fuel g = Inr (resolved st, cycle_report st)"
    using st by (simp add: resolve_with_def)
  moreover have "distinct (resolved st)" using p(1) by (simp add: rinv_def)
  moreover have "fset (fmdom g) \<subseteq> set (resolved st)"
    using p(1) p(3) by (simp add: rinv_def)
  moreover have "\<forall>t \<in> set (resolved st). \<forall>d \<in> set (sorted_deps g t).
                 precedes (resolved st) d t \<or> in_cycle_together (cycle_report st) t d"
    using p(2) by (simp add: topo_def)
  ultimately show ?thesis by blast
qed

lemma for_each_cong_Inr:
  assumes "\<And>x s r. x \<in> set xs \<Longrightarrow> f x s = Inr r \<Longrightarrow> h x s = Inr r"
  shows "for_each f xs s = Inr r \<Longrightarrow> for_each h xs s = Inr r"
  using assms
proof (induction xs arbitrary: s)
  case Nil
  then show ?case by simp
next
  case (Cons x xs)
  from Cons.prems(1) obtain s' where fx: "f x s = Inr s'" and rest: "for_each f xs s' = Inr r"
    by (auto split: sum.splits)
  from Cons.prems(2)[OF _ fx] have hx: "h x s = Inr s'" by simp
  from Cons.IH[OF rest] Cons.prems(2) have "for_each h xs s' = Inr r" by simp
  with hx show ?case by simp
qed

lemma visit_fuel_Suc:
  "visit n g node stack st = Inr r \<Longrightarrow> visit (Suc n) g node stack st = Inr r"
proof (induction n arbitrary: node stack st r)
  case 0
  then show ?case by simp
next
  case (Suc n)
  show ?case
  proof (cases "node \<in> visited st \<or> node \<in> temp st")
    case True
    with Suc.prems show ?thesis by (auto split: option.splits if_splits)
  next
    case False
    with Suc.prems obtain s2 where
      s2: "for_each (\<lambda>dep. visit n g dep (stack @ [dep])) (sorted_deps g node)
             (st\<lparr>temp := insert node (temp st)\<rparr>) = Inr s2"
      and r: "node \<in> temp s2" "r = s2\<lparr>temp := temp s2 - {node},
                 visited := insert node (visited s2), resolved := resolved s2 @ [node]\<rparr>"
      by (auto split: sum.splits if_splits)
    have "for_each (\<lambda>dep. visit (Suc n) g dep (stack @ [dep])) (sorted_deps g node)
             (st\<lparr>temp := insert node (temp st)\<rparr>) = Inr s2"
      using s2 by (rule for_each_cong_Inr[rotated]) (rule Suc.IH)
    with False r show ?thesis by (simp del: visit.simps(2) add: visit.simps(2)[of "Suc n"])
  qed
qed

lemma visit_fuel_mono:
  "visit n g node stack st = Inr r \<Longrightarrow> n \<le> m \<Longrightarrow> visit m g node stack st = Inr r"
  by (induction m) (auto simp: le_Suc_eq dest: visit_fuel_Suc simp del: visit.simps)

lemma resolve_with_fuel_mono:
  assumes "resolve_with n g = Inr r" "n \<le> m"
  shows "resolve_with m g = Inr r"
proof -
  from assms(1) obtain st where
    st: "for_each (\<lambda>t. visit n g t [t]) (sorted_list_of_fset (fmdom g)) init_rstate = Inr st"
    and r: "r = (resolved st, cycle_report st)"
    by (auto simp: resolve_with_def split: sum.splits)
  have "for_each (\<lambda>t. visit m g t [t]) (sorted_list_of_fset (fmdom g)) init_rstate = Inr st"
    using st by (rule for_each_cong_Inr[rotated]) (rule visit_fuel_mono[OF _ assms(2)])
  with r show ?thesis by (simp add: resolve_with_def)
qed

lemma distinct_count_list: "distinct xs \<Longrightarrow> x \<in> set xs \<Longrightarrow> count_list xs x = 1"
  by (induction xs) auto

lemma resolve_total: "\<exists>res cyc. resolve g = Inr (res, cyc)"
  using resolve_with_spec[of g "Suc (fcard (all_names g))"] by (auto simp: resolve_def)

lemma build_graph_fold_lookup:
  assumes "distinct (map fst listing)"
  shows "fmlookup (fold (\<lambda>(table, body) graph.
             if \<not> contains ''CREATE TABLE'' body then graph
             else fmupd table (parse_fks find_refs body) graph) listing g0) t =
         (case map_of listing t of
            None \<Rightarrow> fmlookup g0 t
          | Some body \<Rightarrow> if contains ''CREATE TABLE'' body
                        then Some (parse_fks find_refs body) else fmlookup g0 t)"
  using assms
proof (induction listing arbitrary: g0)
  case Nil
  then show ?case by simp
next
  case (Cons p ps)
  obtain k v where p: "p = (k, v)" by (cases p)
  from Cons.prems p have d: "distinct (map fst ps)" and k: "map_of ps k = None"
    by (auto simp: map_of_eq_None_iff)
  show ?case
    using Cons.IH[OF d] k p by (auto split: option.splits)
qed

lemma build_graph_lookup:
  assumes "distinct (map fst listing)"
  shows "fmlookup (build_graph find_refs listing) t =
         (case map_of listing t of None \<Rightarrow> None | Some body \<Rightarrow> graph_entry find_refs body)"
  unfolding build_graph_def build_graph_fold_lookup[OF assms]
  by (simp add: graph_entry_def split: option.splits)

lemma build_graph_listing_order:
  assumes "distinct (map fst l1)" "distinct (map fst l2)" "set l1 = set l2"
  shows "build_graph find_refs l1 = build_graph find_refs l2"
proof (rule fmap_ext)
  fix t
  from assms have "map_of l1 = map_of l2" by (simp add: map_of_inject_set)
  then show "fmlookup (build_graph find_refs l1) t = fmlookup (build_graph find_refs l2) t"
    by (simp add: build_graph_lookup assms(1,2))
qed

lemma build_graph_dom:
  assumes "distinct (map fst listing)" "map_of listing t = Some body"
  shows "t |\<in>| fmdom (build_graph find_refs listing) \<longleftrightarrow> contains ''CREATE TABLE'' body"
  using build_graph_lookup[OF assms(1), of find_refs t] assms(2)
  by (auto simp: fmlookup_dom_iff graph_entry_def)

subsection \<open>Group assignor\<close>

lemma write_group_content_wf:
  assumes "wf_state st" "grp \<in> set GROUP_ORDER"
  shows "write_group_content grp table content st =
           (if fits st grp content then Inr (True, placed st grp content) else Inr (False, st))"
proof -
  from assms obtain n body where "group_lines st grp = Some n" "group_contents st grp = Some body"
    by (auto simp: wf_state_def)
  then show ?thesis
    by (auto simp: write_group_content_def fits_def placed_def block_lines_def Let_def)
qed

lemma wf_state_placed: "wf_state st \<Longrightarrow> wf_state (placed st grp content)"
  by (simp add: wf_state_def placed_def)

lemma wf_state_log: "wf_state (st\<lparr>log_file := l\<rparr>) = wf_state st"
  by (simp add: wf_state_def)

lemma wf_state_seeds: "wf_state (st\<lparr>seeds := l\<rparr>) = wf_state st"
  by (simp add: wf_state_def)

lemma fits_log: "fits (st\<lparr>log_file := l\<rparr>) grp content = fits st grp content"
  by (simp add: fits_def)

lemma lines_ok_placed:
  assumes "lines_ok st" "fits st grp content"
  shows "lines_ok (placed st grp content)"
  using assms by (auto simp: lines_ok_def fits_def placed_def split: option.splits)

lemma lines_ok_log: "lines_ok (st\<lparr>log_file := l\<rparr>) = lines_ok st"
  by (simp add: lines_ok_def)

lemma lines_ok_seeds: "lines_ok (st\<lparr>seeds := l\<rparr>) = lines_ok st"
  by (simp add: lines_ok_def)

lemma place_body_wf:
  assumes "wf_state st" "gi < length GROUP_ORDER"
  shows "place_body table blk (gi, st) =
     (if fits st (GROUP_ORDER ! gi) blk then Inr (Break (gi, placed st (GROUP_ORDER ! gi) blk))
      else if gi + 1 \<ge> length GROUP_ORDER then Inl (SystemExit (exit_message table))
      else Inr (Continue (gi + 1, st\<lparr>log_file := log_file st
             @ exceeded_line (GROUP_ORDER ! gi) table (GROUP_ORDER ! (gi + 1))\<rparr>)))"
proof -
  from assms(2) have "GROUP_ORDER ! gi \<in> set GROUP_ORDER" by simp
  from write_group_content_wf[OF assms(1) this]
  show ?thesis by (simp add: place_body_def exit_message_def)
qed

lemma place_loop_char:
  assumes "wf_state st" "gi < length GROUP_ORDER"
  shows "place_loop table blk (gi, st) =
     (case find (\<lambda>i. fits st (GROUP_ORDER ! i) blk) [gi..<length GROUP_ORDER] of
        None \<Rightarrow> Inl (SystemExit (exit_message table))
      | Some gj \<Rightarrow> Inr (gj, placed (st\<lparr>log_file := log_file st @ cascade_log table gi gj\<rparr>)
                               (GROUP_ORDER ! gj) blk))"
  using assms
proof (induction "length GROUP_ORDER - gi" arbitrary: gi st)
  case 0
  then show ?case by simp
next
  case (Suc k)
  have upt: "[gi..<length GROUP_ORDER] = gi # [Suc gi..<length GROUP_ORDER]"
    using Suc.prems(2) by (simp add: upt_conv_Cons)
  note body = place_body_wf[OF Suc.prems(1) Suc.prems(2), of table blk]
  show ?case
  proof (cases "fits st (GROUP_ORDER ! gi) blk")
    case True
    have "st\<lparr>log_file := log_file st @ cascade_log table gi gi\<rparr> = st"
      by (simp add: cascade_log_def)
    with True Suc.prems(2) body show ?thesis by (simp add: upt place_loop.simps)
  next
    case nofit: False
    show ?thesis
    proof (cases "gi + 1 \<ge> length GROUP_ORDER")
      case True
      then have "[Suc gi..<length GROUP_ORDER] = []" by simp
      with nofit True Suc.prems(2) body show ?thesis by (simp add: upt place_loop.simps)
    next
      case False
      let ?st = "st\<lparr>log_file := log_file st
             @ exceeded_line (GROUP_ORDER ! gi) table (GROUP_ORDER ! (gi + 1))\<rparr>"
      have k: "k = length GROUP_ORDER - Suc gi" using Suc.hyps(2) by simp
      have lt: "Suc gi < length GROUP_ORDER" using False by simp
      have wf: "wf_state ?st" using Suc.prems(1) by (simp add: wf_state_log)
      have step: "place_loop table blk (gi, st) = place_loop table blk (Suc gi, ?st)"
        using nofit False Suc.prems(2) body by (simp add: place_loop.simps)
      have log: "log_file ?st @ cascade_log table (Suc gi) gj = log_file st @ cascade_log table gi gj"
        if "Suc gi \<le> gj" for gj
      proof -
        from that have "[gi..<gj] = gi # [Suc gi..<gj]" by (simp add: upt_conv_Cons)
        then show ?thesis by (simp add: cascade_log_def)
      qed
      have fnd: "find (\<lambda>i. fits st (GROUP_ORDER ! i) blk) [gi..<length GROUP_ORDER]
          = find (\<lambda>i. fits ?st (GROUP_ORDER ! i) blk) [Suc gi..<length GROUP_ORDER]"
        using nofit by (simp add: upt fits_log)
      show ?thesis
      proof (cases "find (\<lambda>i. fits ?st (GROUP_ORDER ! i) blk) [Suc gi..<length GROUP_ORDER]")
        case None
        with Suc.hyps(1)[OF k wf lt] step fnd show ?thesis by simp
      next
        case (Some gj)
        then have "gj \<in> set [Suc gi..<length GROUP_ORDER]"
          by (auto simp: find_Some_iff)
        then have "Suc gi \<le> gj" by simp
        from log[OF this] have "?st\<lparr>log_file := log_file ?st @ cascade_log table (Suc gi) gj\<rparr>
            = st\<lparr>log_file := log_file st @ cascade_log table gi gj\<rparr>"
          by simp
        with Suc.hyps(1)[OF k wf lt] step fnd Some show ?thesis by simp
      qed
    qed
  qed
qed

lemma assign_group_from_range:
  "assign_group_from gs table \<in> fst ` set gs \<union> {''misc''}"
  by (induction gs table rule: assign_group_from.induct) auto

lemma assign_group_in_order: "assign_group table \<in> set GROUP_ORDER"
proof -
  have "fst ` set GROUPS \<union> {''misc''} \<subseteq> set GROUP_ORDER"
    by (simp add: GROUPS_def GROUP_ORDER_def)
  with assign_group_from_range[of GROUPS table] show ?thesis
    unfolding assign_group_def by blast
qed

lemma list_index_mem: "x \<in> set xs \<Longrightarrow> \<exists>i. list_index xs x = Some i \<and> i < length xs \<and> xs ! i = x"
  by (induction xs) auto

lemma preferred_index_props:
  "list_index GROUP_ORDER (assign_group table) = Some (preferred_index table)"
  "preferred_index table < length GROUP_ORDER"
  "GROUP_ORDER ! preferred_index table = assign_group table"
  using list_index_mem[OF assign_group_in_order[of table]]
  by (auto simp: preferred_index_def)

lemma assign_group_from_none:
  "\<forall>(grp, pool) \<in> set gs. table \<notin> set pool \<Longrightarrow> assign_group_from gs table = ''misc''"
  by (induction gs table rule: assign_group_from.induct) auto

lemma assign_group_default: "on_no_list table \<Longrightarrow> assign_group table = ''misc''"
  unfolding on_no_list_def assign_group_def by (rule assign_group_from_none)

lemma preferred_index_default: "on_no_list table \<Longrightarrow> preferred_index table = length GROUP_ORDER - 1"
  by (simp add: preferred_index_def assign_group_default GROUP_ORDER_def)

lemma collect_seeds_eq:
  "collect_seeds table ins st =
     (if table \<in> set ALLOWED_SEED_TABLES then st\<lparr>seeds := seeds st @ ins\<rparr> else st)"
proof -
  have "fold (\<lambda>insert_stmt s. s\<lparr>seeds := seeds s @ [insert_stmt]\<rparr>) ins st
        = st\<lparr>seeds := seeds st @ ins\<rparr>"
    by (induction ins arbitrary: st) simp_all
  moreover have "fold (\<lambda>insert_stmt s. s) ins st = st"
    by (induction ins) simp_all
  ultimately show ?thesis by (simp add: collect_seeds_def)
qed

lemma process_table_char:
  assumes "wf_state st"
  shows "process_table files table st =
     (case files table of
        None \<Rightarrow> Inr st
      | Some text \<Rightarrow>
          if ddl_statements_of text = [] then Inr st
          else
            (case find (\<lambda>i. fits st (GROUP_ORDER ! i) (ddl_block_of text))
                    [preferred_index table ..< length GROUP_ORDER] of
               None \<Rightarrow> Inl (SystemExit (exit_message table))
             | Some gj \<Rightarrow>
                 Inr (collect_seeds table (insert_statements_of text)
                        (placed (st\<lparr>log_file := log_file st
                                     @ cascade_log table (preferred_index table) gj\<rparr>)
                           (GROUP_ORDER ! gj) (ddl_block_of text)))))"
proof (cases "files table")
  case None
  then show ?thesis by (simp add: process_table_def)
next
  case (Some body)
  show ?thesis
  proof (cases "ddl_statements_of body = []")
    case True
    with Some show ?thesis by (simp add: process_table_def ddl_statements_of_def Let_def)
  next
    case False
    note pl = place_loop_char[OF assms preferred_index_props(2)[of table],
        of table "ddl_block_of body"]
    from Some False show ?thesis
      by (simp add: process_table_def Let_def preferred_index_props(1) pl
          ddl_statements_of_def[symmetric] insert_statements_of_def[symmetric]
          ddl_block_of_def[symmetric] split: option.splits)
  qed
qed

lemma startswith_hd:
  assumes "startswith s p" "startswith s q" "p \<noteq> []" "q \<noteq> []"
  shows "hd p = hd q"
  using assms by (cases s; cases p; cases q) (auto simp: startswith_def)

lemma ddl_not_insert: "is_ddl s \<Longrightarrow> \<not> is_insert s"
proof
  assume "is_ddl s" "is_insert s"
  then have "hd ''CREATE TABLE'' = hd ''INSERT INTO''"
    unfolding is_ddl_def is_insert_def by (rule startswith_hd) simp_all
  then show False by simp
qed

lemma insert_not_ddl: "is_insert s \<Longrightarrow> \<not> is_ddl s"
  using ddl_not_insert by blast

lemma join_append:
  "xs \<noteq> [] \<Longrightarrow> ys \<noteq> [] \<Longrightarrow> join sep (xs @ ys) = join sep xs @ sep @ join sep ys"
proof (induction sep xs rule: join.induct)
  case (1 sep)
  then show ?case by simp
next
  case (2 sep x)
  then show ?case by (cases ys) simp_all
next
  case (3 sep x y ys')
  then show ?case by simp
qed

lemma semicolon_not_space: "\<not> is_space (CHR '';'')"
  by (simp add: is_space_def)

lemma rstrip_id: "s \<noteq> [] \<Longrightarrow> \<not> is_space (last s) \<Longrightarrow> rstrip s = s"
  by (cases "rev s") (auto simp: rstrip_def last_rev[symmetric] hd_rev)

lemma rstrip_subset: "set (rstrip s) \<subseteq> set s"
  using set_dropWhileD[of _ is_space "rev s"] by (auto simp: rstrip_def)

lemma rstrip_last: "rstrip s \<noteq> [] \<Longrightarrow> \<not> is_space (last (rstrip s))"
proof -
  assume a: "rstrip s \<noteq> []"
  then have "dropWhile is_space (rev s) \<noteq> []" by (simp add: rstrip_def)
  then have "\<not> is_space (hd (dropWhile is_space (rev s)))" by (rule hd_dropWhile)
  then show ?thesis using a by (simp add: rstrip_def last_rev)
qed

lemma lstrip_last: "lstrip s \<noteq> [] \<Longrightarrow> last (lstrip s) = last s"
proof (induction s)
  case Nil
  then show ?case by (simp add: lstrip_def)
next
  case (Cons c cs)
  show ?case
  proof (cases "is_space c")
    case True
    with Cons.prems have ne: "lstrip cs \<noteq> []" by (simp add: lstrip_def)
    then have "cs \<noteq> []" by (auto simp: lstrip_def)
    with Cons.IH[OF ne] True show ?thesis by (simp add: lstrip_def)
  next
    case False
    then show ?thesis by (simp add: lstrip_def)
  qed
qed

lemma strip_last:
  assumes "strip s \<noteq> []"
  shows "\<not> is_space (last (strip s))"
proof -
  from assms have ne: "lstrip (rstrip s) \<noteq> []" by (simp add: strip_def)
  then have "rstrip s \<noteq> []" by (auto simp: lstrip_def)
  then have "\<not> is_space (last (rstrip s))" by (rule rstrip_last)
  with lstrip_last[OF ne] show ?thesis by (simp add: strip_def)
qed

lemma lstrip_subset: "set (lstrip s) \<subseteq> set s"
  using set_dropWhileD[of _ is_space s] by (auto simp: lstrip_def)

lemma strip_subset: "set (strip s) \<subseteq> set s"
  using lstrip_subset[of "rstrip s"] rstrip_subset[of s] by (simp add: strip_def)

lemma strip_terminated:
  "strip (b @ '';'') = lstrip b @ '';''"
proof -
  have "rstrip (b @ '';'') = b @ '';''"
    by (rule rstrip_id) (simp_all add: semicolon_not_space)
  then have "strip (b @ '';'') = dropWhile is_space (b @ '';'')"
    by (simp add: strip_def lstrip_def)
  also have "\<dots> = lstrip b @ '';''"
    by (induction b) (auto simp: lstrip_def semicolon_not_space)
  finally show ?thesis .
qed

lemma split_loop_shape:
  assumes "CHR '';'' \<notin> set buffer" "\<forall>x \<in> set stmts. stmt_shape x"
  shows "(\<forall>x \<in> set (fst (split_loop cs buffer stmts)). stmt_shape x)
         \<and> CHR '';'' \<notin> set (snd (split_loop cs buffer stmts))"
  using assms
proof (induction cs arbitrary: buffer stmts)
  case Nil
  then show ?case by simp
next
  case (Cons c cs)
  show ?case
  proof (cases "c = CHR '';''")
    case True
    have s: "strip (buffer @ [c]) = lstrip buffer @ '';''"
      using True strip_terminated[of buffer] by simp
    have "CHR '';'' \<notin> set (lstrip buffer)"
      using Cons.prems(1) lstrip_subset[of buffer] by blast
    then have "stmt_shape (lstrip buffer @ '';'')"
      by (simp add: stmt_shape_def semicolon_not_space butlast_append)
    with Cons.prems(2) have all: "\<forall>x \<in> set (stmts @ [lstrip buffer @ '';'']). stmt_shape x"
      by simp
    have eq: "split_loop (c # cs) buffer stmts = split_loop cs [] (stmts @ [lstrip buffer @ '';''])"
      unfolding split_loop.simps Let_def s using True by simp
    have "CHR '';'' \<notin> set ([] :: string)" by simp
    from Cons.IH[OF this all] show ?thesis unfolding eq .
  next
    case False
    with Cons.prems(1) have nb: "CHR '';'' \<notin> set (buffer @ [c])" by simp
    have eq: "split_loop (c # cs) buffer stmts = split_loop cs (buffer @ [c]) stmts"
      unfolding split_loop.simps Let_def using False by simp
    from Cons.IH[OF nb Cons.prems(2)] show ?thesis unfolding eq .
  qed
qed

lemma split_statements_shape:
  assumes "x \<in> set (split_statements body)"
  shows "stmt_shape x"
proof -
  obtain stmts buffer where sl: "split_loop body [] [] = (stmts, buffer)"
    by (cases "split_loop body [] []")
  from split_loop_shape[of "[]" "[]" body] sl
  have st: "\<forall>x \<in> set stmts. stmt_shape x" and nb: "CHR '';'' \<notin> set buffer"
    by simp_all
  show ?thesis
  proof (cases "x \<in> set stmts")
    case True
    with st show ?thesis by blast
  next
    case False
    with assms sl have x: "x = strip buffer" "strip buffer \<noteq> []"
      by (auto simp: split_statements_def Let_def split: if_splits)
    from nb strip_subset[of buffer] have "CHR '';'' \<notin> set (strip buffer)" by blast
    then have "CHR '';'' \<notin> set (butlast (strip buffer))"
      by (meson in_set_butlastD)
    with x strip_last[of buffer] show ?thesis by (simp add: stmt_shape_def)
  qed
qed

lemma ddl_statements_shape:
  "s \<in> set (ddl_statements_of body) \<Longrightarrow> ddl_stmt s"
  using split_statements_shape[of s body]
  by (auto simp: ddl_statements_of_def ddl_stmt_def stmt_shape_def)

lemma joined_ddl_block:
  assumes "ddl_statements_of body \<noteq> []"
  shows "joined_ddl (ddl_block_of body)"
  unfolding joined_ddl_def ddl_block_of_def
  using assms ddl_statements_shape[of _ body]
  by (intro exI[of _ "ddl_statements_of body"]) simp

lemma joined_ddl_append:
  assumes "joined_ddl a" "joined_ddl b"
  shows "joined_ddl (a @ [CHR 0x0A, CHR 0x0A] @ b)"
proof -
  from assms obtain xs ys where
    xs: "xs \<noteq> []" "a = join [CHR 0x0A, CHR 0x0A] xs" "\<forall>s \<in> set xs. ddl_stmt s"
    and ys: "ys \<noteq> []" "b = join [CHR 0x0A, CHR 0x0A] ys" "\<forall>s \<in> set ys. ddl_stmt s"
    unfolding joined_ddl_def by blast
  have "a @ [CHR 0x0A, CHR 0x0A] @ b = join [CHR 0x0A, CHR 0x0A] (xs @ ys)"
    using xs(1,2) ys(1,2) by (simp add: join_append)
  moreover have "\<forall>s \<in> set (xs @ ys). ddl_stmt s"
    using xs(3) ys(3) by auto
  moreover have "xs @ ys \<noteq> []" using xs(1) by simp
  ultimately show ?thesis unfolding joined_ddl_def by blast
qed

lemma groups_ok_placed:
  assumes "groups_ok st" "wf_state st" "joined_ddl blk"
  shows "groups_ok (placed st grp blk)"
  unfolding groups_ok_def
proof (intro ballI allI impI)
  fix g body
  assume g: "g \<in> set GROUP_ORDER" and b: "group_contents (placed st grp blk) g = Some body"
  show "body = [] \<or> joined_ddl body"
  proof (cases "g = grp")
    case False
    with b have "group_contents st g = Some body" by (simp add: placed_def)
    with assms(1) g show ?thesis by (simp add: groups_ok_def)
  next
    case True
    with g assms(2) obtain old where old: "group_contents st grp = Some old"
      by (auto simp: wf_state_def)
    with assms(1) g True have o: "old = [] \<or> joined_ddl old" by (simp add: groups_ok_def)
    from b True old have "body = (if old \<noteq> [] then old @ [CHR 0x0A, CHR 0x0A] @ blk else blk)"
      by (auto simp: placed_def)
    with o assms(3) show ?thesis using joined_ddl_append by auto
  qed
qed

lemma groups_ok_log: "groups_ok (st\<lparr>log_file := l\<rparr>) = groups_ok st"
  by (simp add: groups_ok_def)

lemma groups_ok_seeds: "groups_ok (st\<lparr>seeds := l\<rparr>) = groups_ok st"
  by (simp add: groups_ok_def)

lemma cascade_log_events:
  "cascade_log table i j = concat (map event_line (cascade_events table i j))"
  by (simp add: cascade_log_def cascade_events_def event_line_def comp_def)

lemma sinv_init: "sinv (init_sstate lg)"
  by (simp add: sinv_def wf_state_def lines_ok_def groups_ok_def init_sstate_def GROUP_ORDER_def)

lemma find_SomeD:
  "find P xs = Some x \<Longrightarrow> x \<in> set xs \<and> P x"
  by (auto simp: find_Some_iff)

lemma process_table_step:
  assumes "sinv st" "process_table files table st = Inr st'"
  shows "sinv st' \<and> seeds st' = seeds st @ seed_contribution files table
         \<and> (\<exists>gj. preferred_index table \<le> gj \<and> gj < length GROUP_ORDER
               \<and> log_file st' = log_file st @ cascade_log table (preferred_index table) gj)"
proof -
  from assms(1) have wf: "wf_state st" by (simp add: sinv_def)
  note pc = process_table_char[OF wf, of files table]
  have same: ?thesis if "st' = st" "seed_contribution files table = []"
  proof -
    have "log_file st = log_file st @ cascade_log table (preferred_index table) (preferred_index table)"
      by (simp add: cascade_log_def)
    with that assms(1) preferred_index_props(2)[of table] show ?thesis by auto
  qed
  show ?thesis
  proof (cases "files table")
    case None
    with pc assms(2) show ?thesis by (intro same) (simp_all add: seed_contribution_def)
  next
    case (Some body)
    show ?thesis
    proof (cases "ddl_statements_of body = []")
      case True
      with Some pc assms(2) show ?thesis by (intro same) (simp_all add: seed_contribution_def)
    next
      case False
      let ?blk = "ddl_block_of body"
      let ?p = "preferred_index table"
      from Some False pc assms(2) obtain gj where
        f: "find (\<lambda>i. fits st (GROUP_ORDER ! i) ?blk) [?p ..< length GROUP_ORDER] = Some gj"
        and st': "st' = collect_seeds table (insert_statements_of body)
                   (placed (st\<lparr>log_file := log_file st @ cascade_log table ?p gj\<rparr>)
                      (GROUP_ORDER ! gj) ?blk)"
        by (auto split: option.splits)
      from find_SomeD[OF f] have gj: "?p \<le> gj" "gj < length GROUP_ORDER"
        and fit: "fits st (GROUP_ORDER ! gj) ?blk" by auto
      let ?s1 = "st\<lparr>log_file := log_file st @ cascade_log table ?p gj\<rparr>"
      let ?s2 = "placed ?s1 (GROUP_ORDER ! gj) ?blk"
      have s1: "sinv ?s1" using assms(1)
        by (simp add: sinv_def wf_state_log lines_ok_log groups_ok_log)
      have "fits ?s1 (GROUP_ORDER ! gj) ?blk" using fit by (simp add: fits_log)
      with s1 have "lines_ok ?s2" by (simp add: sinv_def lines_ok_placed)
      moreover have "wf_state ?s2" using s1 by (simp add: sinv_def wf_state_placed)
      moreover have "groups_ok ?s2"
        using s1 joined_ddl_block[OF False] by (simp add: sinv_def groups_ok_placed)
      ultimately have s2: "sinv ?s2" by (simp add: sinv_def)
      have "sinv st'" unfolding st' collect_seeds_eq using s2
        by (simp add: sinv_def wf_state_seeds lines_ok_seeds groups_ok_seeds)
      moreover have "seeds st' = seeds st @ seed_contribution files table"
        unfolding st' collect_seeds_eq using Some False
        by (simp add: seed_contribution_def placed_def)
      moreover have "log_file st' = log_file st @ cascade_log table ?p gj"
        unfolding st' collect_seeds_eq by (simp add: placed_def)
      ultimately show ?thesis using gj by blast
    qed
  qed
qed

lemma for_each_snoc:
  "for_each body (xs @ [x]) s =
     (case for_each body xs s of Inl e \<Rightarrow> Inl e | Inr s' \<Rightarrow> body x s')"
  by (induction xs arbitrary: s) (auto split: sum.splits)

lemma for_each_append:
  "for_each body (xs @ ys) s =
     (case for_each body xs s of Inl e \<Rightarrow> Inl e | Inr s' \<Rightarrow> for_each body ys s')"
  by (induction xs arbitrary: s) (auto split: sum.splits)

lemma run_from_spec:
  assumes "sinv st" "for_each (process_table files) order st = Inr st'"
  shows "sinv st' \<and> seeds st' = seeds st @ concat (map (seed_contribution files) order)
         \<and> (\<exists>evs. log_file st' = log_file st @ concat (map event_line evs)
               \<and> (\<forall>(t, k) \<in> set evs. t \<in> set order \<and> preferred_index t \<le> k
                      \<and> k + 1 < length GROUP_ORDER))"
  using assms
proof (induction order arbitrary: st)
  case Nil
  then have "log_file st' = log_file st @ concat (map event_line [])" by simp
  with Nil show ?case by (auto intro: exI[of _ "[]"])
next
  case (Cons t ts)
  from Cons.prems(2) obtain s1 where s1: "process_table files t st = Inr s1"
    and rest: "for_each (process_table files) ts s1 = Inr st'"
    by (auto split: sum.splits)
  from process_table_step[OF Cons.prems(1) s1] obtain gj where
    p1: "sinv s1" "seeds s1 = seeds st @ seed_contribution files t"
    "preferred_index t \<le> gj" "gj < length GROUP_ORDER"
    "log_file s1 = log_file st @ cascade_log t (preferred_index t) gj"
    by blast
  from Cons.IH[OF p1(1) rest] obtain evs where
    p2: "sinv st'" "seeds st' = seeds s1 @ concat (map (seed_contribution files) ts)"
    "log_file st' = log_file s1 @ concat (map event_line evs)"
    "\<forall>(t, k) \<in> set evs. t \<in> set ts \<and> preferred_index t \<le> k \<and> k + 1 < length GROUP_ORDER"
    by blast
  let ?evs = "cascade_events t (preferred_index t) gj @ evs"
  have "log_file st' = log_file st @ concat (map event_line ?evs)"
    using p1(5) p2(3) by (simp add: cascade_log_events)
  moreover have "\<forall>(t', k) \<in> set ?evs. t' \<in> set (t # ts) \<and> preferred_index t' \<le> k
      \<and> k + 1 < length GROUP_ORDER"
    using p2(4) p1(3,4) by (auto simp: cascade_events_def)
  moreover have "seeds st' = seeds st @ concat (map (seed_contribution files) (t # ts))"
    using p1(2) p2(2) by simp
  ultimately show ?case using p2(1) by blast
qed

lemma main_loop_spec:
  assumes "main_loop files order lg = Inr st"
  shows "sinv st \<and> seeds st = concat (map (seed_contribution files) order)
         \<and> (\<exists>evs. log_file st = lg @ concat (map event_line evs)
               \<and> (\<forall>(t, k) \<in> set evs. t \<in> set order \<and> preferred_index t \<le> k
                      \<and> k + 1 < length GROUP_ORDER))"
  using run_from_spec[OF sinv_init, of files order lg st] assms
  by (simp add: main_loop_def init_sstate_def)

lemma write_outputs_wf:
  assumes "wf_state st"
  shows "\<exists>out'. for_each (write_output st) OUTPUT_KEYS out = Inr out'
           \<and> map out' OUTPUT_KEYS = map (group_file st) GROUP_ORDER @ [Some (seed_file st)]
           \<and> (\<forall>k. k \<notin> set OUTPUT_KEYS \<longrightarrow> out' k = out k)"
proof -
  from assms obtain b0 b1 b2 b3 where b:
    "group_contents st ''core'' = Some b0" "group_contents st ''project'' = Some b1"
    "group_contents st ''support'' = Some b2" "group_contents st ''misc'' = Some b3"
    by (auto simp: wf_state_def GROUP_ORDER_def)
  then show ?thesis
    by (simp add: OUTPUT_KEYS_def GROUP_ORDER_def write_output_def group_file_def
        seed_file_def seed_header_def placeholder_def)
qed

lemma main_char:
  "main files order d = Inl e \<longleftrightarrow> main_loop files order (log_text d) = Inl e"
  "main files order d = Inr d' \<Longrightarrow>
     \<exists>st. main_loop files order (log_text d) = Inr st \<and> log_text d' = log_file st
        \<and> map (output_files d') OUTPUT_KEYS = map (group_file st) GROUP_ORDER @ [Some (seed_file st)]
        \<and> (\<forall>k. k \<notin> set OUTPUT_KEYS \<longrightarrow> output_files d' k = output_files d k)"
proof -
  have ok: "\<exists>out'. for_each (write_output st) OUTPUT_KEYS (output_files d) = Inr out'
           \<and> map out' OUTPUT_KEYS = map (group_file st) GROUP_ORDER @ [Some (seed_file st)]
           \<and> (\<forall>k. k \<notin> set OUTPUT_KEYS \<longrightarrow> out' k = output_files d k)"
    if "main_loop files order (log_text d) = Inr st" for st
    using main_loop_spec[OF that] write_outputs_wf[of st "output_files d"]
    by (simp add: sinv_def)
  show "main files order d = Inl e \<longleftrightarrow> main_loop files order (log_text d) = Inl e"
  proof (cases "main_loop files order (log_text d)")
    case (Inl a)
    then show ?thesis by (simp add: main_def)
  next
    case (Inr st)
    with ok[OF Inr] show ?thesis by (auto simp: main_def)
  qed
  show "\<exists>st. main_loop files order (log_text d) = Inr st \<and> log_text d' = log_file st
        \<and> map (output_files d') OUTPUT_KEYS = map (group_file st) GROUP_ORDER @ [Some (seed_file st)]
        \<and> (\<forall>k. k \<notin> set OUTPUT_KEYS \<longrightarrow> output_files d' k = output_files d k)"
    if "main files order d = Inr d'"
  proof (cases "main_loop files order (log_text d)")
    case (Inl a)
    with that show ?thesis by (simp add: main_def)
  next
    case (Inr st)
    from ok[OF Inr] obtain out' where
      o: "for_each (write_output st) OUTPUT_KEYS (output_files d) = Inr out'"
      "map out' OUTPUT_KEYS = map (group_file st) GROUP_ORDER @ [Some (seed_file st)]"
      "\<forall>k. k \<notin> set OUTPUT_KEYS \<longrightarrow> out' k = output_files d k"
      by blast
    with Inr that have "d' = \<lparr>output_files = out', log_text = log_file st\<rparr>"
      by (simp add: main_def)
    with Inr o show ?thesis by simp
  qed
qed

lemma script_observe:
  "map_sum id (\<lambda>d. (map (output_files d) OUTPUT_KEYS, log_text d)) (script files order d1) =
   map_sum id (\<lambda>d. (map (output_files d) OUTPUT_KEYS, log_text d)) (script files order d2)"
proof -
  let ?obs = "\<lambda>d. (map (output_files d) OUTPUT_KEYS, log_text d)"
  have main_obs: "map_sum id ?obs (main files order a) = map_sum id ?obs (main files order b)"
    if "log_text a = log_text b" for a b
  proof (cases "main_loop files order (log_text a)")
    case (Inl e)
    with that main_char(1)[of files order a e] main_char(1)[of files order b e]
    show ?thesis by simp
  next
    case (Inr st)
    have na: "main files order a \<noteq> Inl e" for e using Inr main_char(1)[of files order a e] by simp
    have nb: "main files order b \<noteq> Inl e" for e
      using Inr that main_char(1)[of files order b e] by simp
    from na obtain a' where a': "main files order a = Inr a'" by (cases "main files order a") auto
    from nb obtain b' where b': "main files order b = Inr b'" by (cases "main files order b") auto
    from main_char(2)[OF a'] main_char(2)[OF b'] Inr that
    have "?obs a' = ?obs b'" by auto
    with a' b' show ?thesis by simp
  qed
  have p: "log_text (prepare_group_files d1) = log_text (prepare_group_files d2)"
    by (simp add: prepare_group_files_def)
  from main_obs[OF p] show ?thesis
  proof (cases "main files order (prepare_group_files d1)")
    case (Inl e)
    with main_obs[OF p] have "main files order (prepare_group_files d2) = Inl e"
      by (cases "main files order (prepare_group_files d2)") auto
    with Inl show ?thesis by (simp add: script_def)
  next
    case (Inr a)
    with main_obs[OF p] obtain b where b: "main files order (prepare_group_files d2) = Inr b"
      and ab: "?obs a = ?obs b"
      by (cases "main files order (prepare_group_files d2)") auto
    from ab have "log_text a = log_text b" by simp
    from main_obs[OF this] Inr b show ?thesis by (simp add: script_def)
  qed
qed

lemma split_loop_no_semi:
  "CHR '';'' \<notin> set xs \<Longrightarrow> split_loop (xs @ ys) buffer stmts = split_loop ys (buffer @ xs) stmts"
  by (induction xs arbitrary: buffer) (auto simp: Let_def)

lemma split_loop_stmts:
  "split_loop xs buffer (s0 @ stmts) =
     (s0 @ fst (split_loop xs buffer stmts), snd (split_loop xs buffer stmts))"
  by (induction xs buffer stmts rule: split_loop.induct) (auto simp: Let_def)

lemma strip_id:
  assumes "s \<noteq> []" "\<not> is_space (hd s)" "\<not> is_space (last s)"
  shows "strip s = s"
proof -
  from assms(1,3) have "dropWhile is_space (rev s) = rev s"
    by (cases "rev s") (auto simp: last_rev[symmetric] hd_rev)
  then have "rstrip s = s" by (simp add: rstrip_def)
  moreover from assms(1,2) have "lstrip s = s" by (cases s) (auto simp: lstrip_def)
  ultimately show ?thesis by (simp add: strip_def)
qed

lemma split_statements_Cons:
  assumes "CHR '';'' \<notin> set b" "b \<noteq> []" "\<not> is_space (hd b)"
  shows "split_statements (b @ CHR '';'' # rest) = (b @ '';'') # split_statements rest"
proof -
  have nsp: "\<not> is_space (CHR '';'')" by (simp add: is_space_def)
  have s: "strip (b @ '';'') = b @ '';''"
    using assms(2,3) nsp by (intro strip_id) auto
  have "split_loop (b @ CHR '';'' # rest) [] [] = split_loop rest [] ([b @ '';''] @ [])"
    using split_loop_no_semi[OF assms(1), of "CHR '';'' # rest" "[]" "[]"] s
    by (simp add: Let_def)
  also have "\<dots> = ([b @ '';''] @ fst (split_loop rest [] []), snd (split_loop rest [] []))"
    by (rule split_loop_stmts)
  finally show ?thesis
    by (cases "split_loop rest [] []") (simp add: split_statements_def Let_def)
qed

lemma split_statements_Nil: "split_statements [] = []"
  by (simp add: split_statements_def)

lemma is_ddl_create: "is_ddl (''CREATE TABLE'' @ x)"
  by (simp add: is_ddl_def lstrip_def upper_def startswith_def is_space_def upper_char_def)

lemma is_insert_create: "\<not> is_insert (''CREATE TABLE'' @ x)"
  using ddl_not_insert is_ddl_create by blast

lemma count_list_replicate_same: "count_list (replicate n x) x = n"
  by (induction n) simp_all

lemma split_big_table: "split_statements (big_table n) = [big_table n]"
proof -
  have "split_statements ((''CREATE TABLE t ('' @ replicate n (CHR 0x0A) @ '')'') @ CHR '';'' # [])
      = ((''CREATE TABLE t ('' @ replicate n (CHR 0x0A) @ '')'') @ '';'') # split_statements []"
    by (rule split_statements_Cons) (simp_all add: is_space_def)
  then show ?thesis by (simp add: big_table_def split_statements_Nil)
qed

lemma big_table_ddl: "ddl_statements_of (big_table n) = [big_table n]"
  "insert_statements_of (big_table n) = []"
  "ddl_block_of (big_table n) = big_table n"
proof -
  have d: "is_ddl (big_table n)" unfolding big_table_def
    using is_ddl_create[of "'' t ('' @ replicate n (CHR 0x0A) @ '');''"] by simp
  then show "ddl_statements_of (big_table n) = [big_table n]"
    by (simp add: ddl_statements_of_def split_big_table)
  then show "ddl_block_of (big_table n) = big_table n" by (simp add: ddl_block_of_def)
  from d show "insert_statements_of (big_table n) = []"
    by (simp add: insert_statements_of_def split_big_table ddl_not_insert)
qed

lemma big_table_lines: "block_lines (big_table n) = n + 1"
  by (simp add: block_lines_def big_table_def count_list_replicate_same)

lemma pref_roles: "preferred_index ''roles'' = 0" "preferred_index ''users'' = 0"
  by (simp_all add: preferred_index_def assign_group_def GROUPS_def GROUP_ORDER_def)

lemma run2:
  "\<exists>st. main_loop cascade_files [''roles'', ''users''] lg = Inr st
     \<and> log_file st = lg @ exceeded_line ''core'' ''users'' ''project''"
proof -
  let ?s0 = "init_sstate lg"
  let ?s1 = "placed ?s0 ''core'' (big_table 599)"
  have wf0: "wf_state ?s0" using sinv_init by (simp add: sinv_def)
  have f0: "fits ?s0 ''core'' (big_table 599)"
    by (simp add: fits_def init_sstate_def GROUP_ORDER_def big_table_lines LINE_LIMIT_def)
  have p1: "process_table cascade_files ''roles'' ?s0 = Inr ?s1"
    using f0
    by (simp add: process_table_char[OF wf0] cascade_files_def big_table_ddl pref_roles upt_conv_Cons
        GROUP_ORDER_def cascade_log_def collect_seeds_eq)
  have wf1: "wf_state ?s1" using wf0 by (rule wf_state_placed)
  have f1: "\<not> fits ?s1 ''core'' (big_table 0)" "fits ?s1 ''project'' (big_table 0)"
    by (simp_all add: fits_def placed_def init_sstate_def GROUP_ORDER_def big_table_lines LINE_LIMIT_def)
  let ?s2 = "placed (?s1\<lparr>log_file := log_file ?s1 @ exceeded_line ''core'' ''users'' ''project''\<rparr>)
               ''project'' (big_table 0)"
  have p2: "process_table cascade_files ''users'' ?s1 = Inr ?s2"
    using f1
    by (simp add: process_table_char[OF wf1] cascade_files_def big_table_ddl pref_roles upt_conv_Cons
        GROUP_ORDER_def cascade_log_def collect_seeds_eq ALLOWED_SEED_TABLES_def)
  have "main_loop cascade_files [''roles'', ''users''] lg = Inr ?s2"
    by (simp add: main_loop_def p1 p2)
  moreover have "log_file ?s2 = lg @ exceeded_line ''core'' ''users'' ''project''"
    by (simp add: placed_def init_sstate_def)
  ultimately show ?thesis by blast
qed

lemma find_upt_Some:
  assumes "find P [a..<b] = Some k"
  shows "a \<le> k \<and> k < b \<and> P k \<and> (\<forall>i. a \<le> i \<and> i < k \<longrightarrow> \<not> P i)"
proof -
  from assms obtain i where i: "i < length [a..<b]" "P ([a..<b] ! i)" "k = [a..<b] ! i"
    "\<forall>j<i. \<not> P ([a..<b] ! j)"
    by (auto simp: find_Some_iff)
  from i(1) have k: "k = a + i" "i < b - a" using i(3) by auto
  have "\<not> P m" if "a \<le> m" "m < k" for m
  proof -
    from that k have "m - a < i" "m - a < b - a" by auto
    with i(4) have "\<not> P ([a..<b] ! (m - a))" by blast
    with that \<open>m - a < b - a\<close> show ?thesis by simp
  qed
  with i(2) k show ?thesis by auto
qed

lemma find_upt_None: "find P [a..<b] = None \<longleftrightarrow> (\<forall>i. a \<le> i \<and> i < b \<longrightarrow> \<not> P i)"
  by (auto simp: find_None_iff)

lemma run_abort:
  assumes "sinv st" "for_each (process_table files) order st = Inl e"
  shows "\<exists>t \<in> set order. \<exists>s. sinv s \<and> process_table files t s = Inl e"
  using assms
proof (induction order arbitrary: st)
  case Nil
  then show ?case by simp
next
  case (Cons t ts)
  show ?case
  proof (cases "process_table files t st")
    case (Inl a)
    with Cons.prems show ?thesis by auto
  next
    case (Inr s1)
    with Cons.prems(2) have rest: "for_each (process_table files) ts s1 = Inl e" by simp
    from process_table_step[OF Cons.prems(1) Inr] have "sinv s1" by blast
    from Cons.IH[OF this rest] show ?thesis by auto
  qed
qed

lemma process_table_abort_iff:
  assumes "wf_state st"
  shows "process_table files t st = Inl e \<longleftrightarrow>
           e = SystemExit (exit_message t)
           \<and> (\<exists>body. files t = Some body \<and> ddl_statements_of body \<noteq> []
                 \<and> (\<forall>i. preferred_index t \<le> i \<and> i < length GROUP_ORDER
                        \<longrightarrow> \<not> fits st (GROUP_ORDER ! i) (ddl_block_of body)))"
proof (cases "files t")
  case None
  then show ?thesis using process_table_char[OF assms, of files t] by simp
next
  case (Some body)
  show ?thesis
  proof (cases "ddl_statements_of body = []")
    case True
    with Some show ?thesis using process_table_char[OF assms, of files t] by simp
  next
    case False
    show ?thesis
    proof (cases "find (\<lambda>i. fits st (GROUP_ORDER ! i) (ddl_block_of body))
                    [preferred_index t ..< length GROUP_ORDER]")
      case None
      with Some False show ?thesis
        using process_table_char[OF assms, of files t] find_upt_None[THEN iffD1, OF None]
        by auto
    next
      case (Some gj)
      from find_upt_Some[OF Some] have "preferred_index t \<le> gj \<and> gj < length GROUP_ORDER
          \<and> fits st (GROUP_ORDER ! gj) (ddl_block_of body)" by blast
      with Some \<open>files t = Some body\<close> False show ?thesis
        using process_table_char[OF assms, of files t] by auto
    qed
  qed
qed

lemma wf_state_init: "wf_state (init_sstate lg)"
  using sinv_init by (simp add: sinv_def)

lemma last_group: "last GROUP_ORDER = GROUP_ORDER ! (length GROUP_ORDER - 1)"
  by (simp add: GROUP_ORDER_def)

lemma for_each_abort_iff:
  "for_each body xs s0 = Inl e \<longleftrightarrow>
     (\<exists>k<length xs. \<exists>s. for_each body (take k xs) s0 = Inr s \<and> body (xs ! k) s = Inl e)"
proof (induction xs rule: rev_induct)
  case Nil
  then show ?case by simp
next
  case (snoc x xs)
  have split: "for_each body (xs @ [x]) s0 = Inl e \<longleftrightarrow>
      for_each body xs s0 = Inl e \<or> (\<exists>s. for_each body xs s0 = Inr s \<and> body x s = Inl e)"
    by (cases "for_each body xs s0") (simp_all add: for_each_snoc)
  have "(\<exists>k<length (xs @ [x]). \<exists>s. for_each body (take k (xs @ [x])) s0 = Inr s
            \<and> body ((xs @ [x]) ! k) s = Inl e) \<longleftrightarrow>
        (\<exists>k<length xs. \<exists>s. for_each body (take k xs) s0 = Inr s \<and> body (xs ! k) s = Inl e)
        \<or> (\<exists>s. for_each body xs s0 = Inr s \<and> body x s = Inl e)"
    (is "?L \<longleftrightarrow> ?A \<or> ?B")
  proof
    assume ?L
    then obtain k s where k: "k < Suc (length xs)"
      "for_each body (take k (xs @ [x])) s0 = Inr s" "body ((xs @ [x]) ! k) s = Inl e"
      by auto
    show "?A \<or> ?B"
    proof (cases "k < length xs")
      case True
      with k show ?thesis by (auto simp: nth_append)
    next
      case False
      with k(1) have "k = length xs" by simp
      with k show ?thesis by auto
    qed
  next
    assume "?A \<or> ?B"
    then show ?L
    proof
      assume ?A
      then obtain k s where "k < length xs" "for_each body (take k xs) s0 = Inr s"
        "body (xs ! k) s = Inl e" by blast
      then show ?L by (intro exI[of _ k]) (auto simp: nth_append)
    next
      assume ?B
      then show ?L by (intro exI[of _ "length xs"]) auto
    qed
  qed
  with split snoc.IH show ?case by simp
qed

lemma oversize_nofit:
  "preferred_index ''roles'' \<le> i \<and> i < length GROUP_ORDER
     \<longrightarrow> \<not> fits (init_sstate []) (GROUP_ORDER ! i) (ddl_block_of (big_table 600))"
proof
  assume "preferred_index ''roles'' \<le> i \<and> i < length GROUP_ORDER"
  then have "i < 4" by (simp add: GROUP_ORDER_def)
  then have "i = 0 \<or> i = 1 \<or> i = 2 \<or> i = 3" by arith
  then show "\<not> fits (init_sstate []) (GROUP_ORDER ! i) (ddl_block_of (big_table 600))"
    by (auto simp: fits_def init_sstate_def GROUP_ORDER_def big_table_ddl big_table_lines
        LINE_LIMIT_def)
qed

lemma main_log:
  assumes "main_loop files order (log_text d) = Inr st"
  shows "\<exists>d'. main files order d = Inr d' \<and> log_text d' = log_file st"
proof -
  have "main files order d \<noteq> Inl e" for e
    using assms main_char(1)[of files order d e] by simp
  then obtain d' where d': "main files order d = Inr d'"
    by (cases "main files order d") auto
  from main_char(2)[OF d'] assms have "log_text d' = log_file st" by auto
  with d' show ?thesis by blast
qed

lemma script_cascade_run:
  "\<exists>d. script cascade_files [''roles'', ''users''] dsk = Inr d
       \<and> log_text d = exceeded_line ''core'' ''users'' ''project''
                        @ exceeded_line ''core'' ''users'' ''project''"
proof -
  let ?L = "exceeded_line ''core'' ''users'' ''project''"
  let ?ord = "[''roles'', ''users'']"
  have l0: "log_text (prepare_group_files dsk) = []" by (simp add: prepare_group_files_def)
  from run2[of "[]"] obtain s1 where
    s1: "main_loop cascade_files ?ord (log_text (prepare_group_files dsk)) = Inr s1"
    "log_file s1 = ?L"
    unfolding l0 by auto
  from main_log[OF s1(1)] obtain d1 where
    d1: "main cascade_files ?ord (prepare_group_files dsk) = Inr d1" "log_text d1 = ?L"
    using s1(2) by auto
  from run2[of ?L] obtain s2 where
    s2: "main_loop cascade_files ?ord (log_text d1) = Inr s2" "log_file s2 = ?L @ ?L"
    unfolding d1(2) by auto
  from main_log[OF s2(1)] obtain d2 where
    d2: "main cascade_files ?ord d1 = Inr d2" "log_text d2 = ?L @ ?L"
    using s2(2) by auto
  from d1(1) d2 show ?thesis by (simp add: script_def)
qed

lemma exceeded_line_example:
  "exceeded_line ''core'' ''users'' ''project''
     = ''Exceeded 600 lines in core, moving users to project'' @ [CHR 0x0A]"
  by code_simp

lemma process_table_no_ddl:
  "files t = Some body \<Longrightarrow> ddl_statements_of body = [] \<Longrightarrow> process_table files t st = Inr st"
  by (simp add: process_table_def ddl_statements_of_def Let_def)

lemma seed_files_run:
  "(case script seed_files [''settings'', ''orphan_log'', ''users''] stale_disk of
      Inl e \<Rightarrow> (None, None, None, [])
    | Inr d \<Rightarrow> (output_files d ''seed'', output_files d ''misc'', output_files d ''core'',
                log_text d))
   = (Some (''-- Seed file (DDL stripped)'' @ [CHR 0x0A] @ ''INSERT INTO settings VALUES (1);''),
      Some ''CREATE TABLE settings (id int);'',
      Some ''CREATE TABLE users (id int);'', [])"
  by code_simp

lemma join_Cons_concat: "join sep (x # xs) = x @ concat (map (\<lambda>y. sep @ y) xs)"
  by (induction xs arbitrary: x) simp_all

lemma lstrip_spaces: "\<forall>c \<in> set w. is_space c \<Longrightarrow> lstrip (w @ s) = lstrip s"
  by (simp add: lstrip_def dropWhile_append2)

lemma is_ddl_spaces: "\<forall>c \<in> set w. is_space c \<Longrightarrow> is_ddl (w @ s) = is_ddl s"
  by (simp add: is_ddl_def lstrip_spaces)

lemma startswith_append: "startswith u p \<Longrightarrow> startswith (u @ v) p"
proof -
  assume a: "startswith u p"
  then have "length (take (length p) u) = length p" by (simp add: startswith_def)
  then have "length p \<le> length u" by simp
  with a show ?thesis by (simp add: startswith_def)
qed

lemma is_ddl_nonempty: "is_ddl b \<Longrightarrow> lstrip b \<noteq> []"
  by (auto simp: is_ddl_def startswith_def upper_def)

lemma lstrip_append: "lstrip b \<noteq> [] \<Longrightarrow> lstrip (b @ x) = lstrip b @ x"
proof (induction b)
  case Nil
  then show ?case by (simp add: lstrip_def)
next
  case (Cons c cs)
  then show ?case by (cases "is_space c") (simp_all add: lstrip_def)
qed

lemma is_ddl_append: "is_ddl b \<Longrightarrow> is_ddl (b @ x)"
  using is_ddl_nonempty[of b] startswith_append[of "upper (lstrip b)" "''CREATE TABLE''" "upper x"]
  by (simp add: is_ddl_def lstrip_append upper_def)

lemma is_ddl_lstrip: "is_ddl (lstrip x) = is_ddl x"
  by (simp add: is_ddl_def lstrip_def)

lemma end_buf_extend:
  assumes "end_buf b" "\<forall>c \<in> set w. is_space c" "is_ddl s"
  shows "is_ddl (b @ w @ s)"
proof (cases "b = []")
  case True
  with assms(2,3) show ?thesis by (simp add: is_ddl_spaces)
next
  case False
  with assms(1) have "is_ddl b" by (simp add: end_buf_def)
  then show ?thesis by (rule is_ddl_append)
qed

lemma strip_nospace_end:
  assumes "x \<noteq> []" "\<not> is_space (last x)"
  shows "strip x = lstrip x"
  using rstrip_id[OF assms] by (simp add: strip_def)

lemma split_chunk:
  assumes "ddl_stmt s" "end_buf b" "\<forall>c \<in> set w. is_space c" "\<forall>x \<in> set acc. is_ddl x"
  shows "\<exists>acc' b'. split_loop ((w @ s) @ rest) b acc = split_loop rest b' acc'
           \<and> end_buf b' \<and> (\<forall>x \<in> set acc'. is_ddl x)"
proof -
  from assms(1) have s: "s \<noteq> []" "is_ddl s" "\<not> is_space (last s)"
    "CHR '';'' \<notin> set (butlast s)"
    by (simp_all add: ddl_stmt_def)
  let ?pre = "w @ butlast s"
  have nosemi: "CHR '';'' \<notin> set ?pre"
    using assms(3) s(4) semicolon_not_space by auto
  have parts: "(w @ s) @ rest = ?pre @ (last s # rest)"
    using s(1) by (cases s rule: rev_cases) simp_all
  have step: "split_loop ((w @ s) @ rest) b acc = split_loop (last s # rest) (b @ ?pre) acc"
    unfolding parts using nosemi by (rule split_loop_no_semi)
  have full: "(b @ ?pre) @ [last s] = b @ w @ s" using s(1) by simp
  have ddl: "is_ddl (b @ w @ s)" using assms(2,3) s(2) by (rule end_buf_extend)
  have ne: "b @ w @ s \<noteq> []" using s(1) by simp
  have lst: "\<not> is_space (last (b @ w @ s))" using s(1,3) by simp
  show ?thesis
  proof (cases "last s = CHR '';''")
    case True
    have "strip (b @ w @ s) = lstrip (b @ w @ s)" using ne lst by (rule strip_nospace_end)
    moreover have "lstrip (b @ w @ s) \<noteq> []" using ddl by (rule is_ddl_nonempty)
    ultimately have st: "strip ((b @ ?pre) @ [last s]) \<noteq> []"
      "is_ddl (strip ((b @ ?pre) @ [last s]))"
      unfolding full using ddl by (simp_all add: is_ddl_lstrip)
    have "split_loop (last s # rest) (b @ ?pre) acc
        = split_loop rest [] (acc @ [strip ((b @ ?pre) @ [last s])])"
      unfolding split_loop.simps Let_def using True st(1) by simp
    moreover have "end_buf []" by (simp add: end_buf_def)
    moreover have "\<forall>x \<in> set (acc @ [strip ((b @ ?pre) @ [last s])]). is_ddl x"
      using assms(4) st(2) by simp
    ultimately show ?thesis using step by metis
  next
    case False
    have "split_loop (last s # rest) (b @ ?pre) acc = split_loop rest (b @ w @ s) acc"
      unfolding split_loop.simps Let_def full using False by simp
    moreover have "end_buf (b @ w @ s)" using ddl lst by (simp add: end_buf_def)
    ultimately show ?thesis using step assms(4) by metis
  qed
qed

lemma split_chunks:
  assumes "\<forall>s \<in> set S. ddl_stmt s" "end_buf b" "\<forall>x \<in> set acc. is_ddl x"
  shows "\<exists>acc' b'. split_loop (concat (map (\<lambda>y. [CHR 0x0A, CHR 0x0A] @ y) S)) b acc = (acc', b')
           \<and> end_buf b' \<and> (\<forall>x \<in> set acc'. is_ddl x)"
  using assms
proof (induction S arbitrary: b acc)
  case Nil
  then show ?case by simp
next
  case (Cons s S)
  have sp: "\<forall>c \<in> set [CHR 0x0A, CHR 0x0A]. is_space c" by (simp add: is_space_def)
  from Cons.prems(1) have s: "ddl_stmt s" and S: "\<forall>s \<in> set S. ddl_stmt s" by simp_all
  from split_chunk[OF s Cons.prems(2) sp Cons.prems(3),
      of "concat (map (\<lambda>y. [CHR 0x0A, CHR 0x0A] @ y) S)"]
  obtain acc1 b1 where
    c: "split_loop (([CHR 0x0A, CHR 0x0A] @ s) @ concat (map (\<lambda>y. [CHR 0x0A, CHR 0x0A] @ y) S)) b acc
        = split_loop (concat (map (\<lambda>y. [CHR 0x0A, CHR 0x0A] @ y) S)) b1 acc1"
    and p: "end_buf b1" "\<forall>x \<in> set acc1. is_ddl x"
    by blast
  from Cons.IH[OF S p] c show ?case by simp
qed

lemma resplit_ddl:
  assumes "S \<noteq> []" "\<forall>s \<in> set S. ddl_stmt s"
  shows "\<forall>x \<in> set (split_statements (join [CHR 0x0A, CHR 0x0A] S)). is_ddl x"
proof -
  from assms(1) obtain s S' where S: "S = s # S'" by (cases S) auto
  with assms(2) have s: "ddl_stmt s" and S': "\<forall>s \<in> set S'. ddl_stmt s" by simp_all
  let ?rest = "concat (map (\<lambda>y. [CHR 0x0A, CHR 0x0A] @ y) S')"
  have e0: "end_buf []" by (simp add: end_buf_def)
  from split_chunk[OF s e0, of "[]" "[]" ?rest]
  obtain acc1 b1 where
    c: "split_loop (s @ ?rest) [] [] = split_loop ?rest b1 acc1"
    and p: "end_buf b1" "\<forall>x \<in> set acc1. is_ddl x"
    by auto
  from split_chunks[OF S' p] obtain acc2 b2 where
    r: "split_loop ?rest b1 acc1 = (acc2, b2)" and q: "end_buf b2" "\<forall>x \<in> set acc2. is_ddl x"
    by blast
  have sl: "split_loop (join [CHR 0x0A, CHR 0x0A] S) [] [] = (acc2, b2)"
    unfolding S join_Cons_concat c r ..
  have tr: "is_ddl (strip b2)" if "b2 \<noteq> []"
  proof -
    from q(1) that have d: "is_ddl b2" "\<not> is_space (last b2)" by (simp_all add: end_buf_def)
    from strip_nospace_end[OF that d(2)] d(1) show ?thesis by (simp add: is_ddl_lstrip)
  qed
  show ?thesis
    unfolding split_statements_def sl using q(2) tr by (auto simp: Let_def)
qed

lemma placeholder_statements:
  "grp \<in> set GROUP_ORDER \<Longrightarrow> \<forall>x \<in> set (split_statements (placeholder grp)). \<not> is_insert x"
proof -
  assume "grp \<in> set GROUP_ORDER"
  then have "grp = ''core'' \<or> grp = ''project'' \<or> grp = ''support'' \<or> grp = ''misc''"
    by (simp add: GROUP_ORDER_def)
  moreover have "\<forall>x \<in> set (split_statements (placeholder ''core'')). \<not> is_insert x" by code_simp
  moreover have "\<forall>x \<in> set (split_statements (placeholder ''project'')). \<not> is_insert x" by code_simp
  moreover have "\<forall>x \<in> set (split_statements (placeholder ''support'')). \<not> is_insert x" by code_simp
  moreover have "\<forall>x \<in> set (split_statements (placeholder ''misc'')). \<not> is_insert x" by code_simp
  ultimately show ?thesis by blast
qed

lemma is_insert_spaces: "\<forall>c \<in> set w. is_space c \<Longrightarrow> is_insert (w @ s) = is_insert s"
  by (simp add: is_insert_def lstrip_spaces)

lemma is_insert_nonempty: "is_insert b \<Longrightarrow> lstrip b \<noteq> []"
  by (auto simp: is_insert_def startswith_def upper_def)

lemma is_insert_append: "is_insert b \<Longrightarrow> is_insert (b @ x)"
  using is_insert_nonempty[of b] startswith_append[of "upper (lstrip b)" "''INSERT INTO''" "upper x"]
  by (simp add: is_insert_def lstrip_append upper_def)

lemma lstrip_idem: "lstrip (lstrip x) = lstrip x"
  by (simp add: lstrip_def)

lemma seed_started_spaces:
  "\<forall>c \<in> set w. is_space c \<Longrightarrow> seed_started (w @ s) = seed_started s"
  by (simp add: seed_started_def is_insert_spaces lstrip_spaces)

lemma seed_started_append:
  assumes "seed_started b"
  shows "seed_started (b @ x)"
proof (cases "is_insert b")
  case True
  then show ?thesis by (simp add: seed_started_def is_insert_append)
next
  case False
  with assms have d: "startswith (lstrip b) ''--''" by (simp add: seed_started_def)
  then have "lstrip b \<noteq> []" by (auto simp: startswith_def)
  then have "lstrip (b @ x) = lstrip b @ x" by (rule lstrip_append)
  with d show ?thesis by (simp add: seed_started_def startswith_append)
qed

lemma seed_started_lstrip: "seed_started (lstrip x) = seed_started x"
  by (simp add: seed_started_def is_insert_def lstrip_idem)

lemma startswith_upper: "startswith l p \<Longrightarrow> startswith (upper l) (upper p)"
  unfolding startswith_def upper_def by (metis length_map take_map)

lemma seed_started_not_ddl:
  assumes "seed_started x"
  shows "\<not> is_ddl x"
proof (cases "is_insert x")
  case True
  then show ?thesis by (rule insert_not_ddl)
next
  case False
  with assms have d: "startswith (lstrip x) ''--''" by (simp add: seed_started_def)
  from startswith_upper[OF d] have u: "startswith (upper (lstrip x)) ''--''"
    by (simp add: upper_def upper_char_def)
  show ?thesis
  proof
    assume "is_ddl x"
    then have "startswith (upper (lstrip x)) ''CREATE TABLE''" by (simp add: is_ddl_def)
    from startswith_hd[OF u this] show False by simp
  qed
qed

lemma seed_chunk:
  assumes "seed_started s" "stmt_shape s" "b = [] \<or> seed_started b"
    "\<forall>c \<in> set w. is_space c" "\<forall>x \<in> set acc. seed_started x"
  shows "\<exists>acc' b'. split_loop ((w @ s) @ rest) b acc = split_loop rest b' acc'
           \<and> (b' = [] \<or> (seed_started b' \<and> \<not> is_space (last b')))
           \<and> (\<forall>x \<in> set acc'. seed_started x)"
proof -
  from assms(2) have s: "s \<noteq> []" "\<not> is_space (last s)" "CHR '';'' \<notin> set (butlast s)"
    by (simp_all add: stmt_shape_def)
  let ?pre = "w @ butlast s"
  have nosemi: "CHR '';'' \<notin> set ?pre"
    using assms(4) s(3) semicolon_not_space by auto
  have parts: "(w @ s) @ rest = ?pre @ (last s # rest)"
    using s(1) by (cases s rule: rev_cases) simp_all
  have step: "split_loop ((w @ s) @ rest) b acc = split_loop (last s # rest) (b @ ?pre) acc"
    unfolding parts using nosemi by (rule split_loop_no_semi)
  have full: "(b @ ?pre) @ [last s] = b @ w @ s" using s(1) by simp
  have st: "seed_started (b @ w @ s)"
  proof (cases "b = []")
    case True
    with assms(1,4) show ?thesis by (simp add: seed_started_spaces)
  next
    case False
    with assms(3) have "seed_started b" by simp
    then show ?thesis by (rule seed_started_append)
  qed
  have ne: "b @ w @ s \<noteq> []" using s(1) by simp
  have lst: "\<not> is_space (last (b @ w @ s))" using s(1,2) by simp
  show ?thesis
  proof (cases "last s = CHR '';''")
    case True
    have sl: "strip (b @ w @ s) = lstrip (b @ w @ s)" using ne lst by (rule strip_nospace_end)
    have "b @ w @ s = (b @ ?pre) @ '';''" using full True by simp
    then have "strip (b @ w @ s) = lstrip (b @ ?pre) @ '';''"
      using strip_terminated[of "b @ ?pre"] by simp
    then have nonempty: "strip ((b @ ?pre) @ [last s]) \<noteq> []" unfolding full by simp
    have ok: "seed_started (strip ((b @ ?pre) @ [last s]))"
      unfolding full sl using st by (simp add: seed_started_lstrip)
    have "split_loop (last s # rest) (b @ ?pre) acc
        = split_loop rest [] (acc @ [strip ((b @ ?pre) @ [last s])])"
      unfolding split_loop.simps Let_def using True nonempty by simp
    moreover have "\<forall>x \<in> set (acc @ [strip ((b @ ?pre) @ [last s])]). seed_started x"
      using assms(5) ok by simp
    ultimately show ?thesis using step by metis
  next
    case False
    have "split_loop (last s # rest) (b @ ?pre) acc = split_loop rest (b @ w @ s) acc"
      unfolding split_loop.simps Let_def full using False by simp
    with step st lst assms(5) show ?thesis by metis
  qed
qed

lemma seed_chunks:
  assumes "\<forall>s \<in> set S. seed_started s \<and> stmt_shape s"
    "b = [] \<or> (seed_started b \<and> \<not> is_space (last b))" "\<forall>x \<in> set acc. seed_started x"
  shows "\<exists>acc' b'. split_loop (concat (map (\<lambda>y. [CHR 0x0A, CHR 0x0A] @ y) S)) b acc = (acc', b')
           \<and> (b' = [] \<or> (seed_started b' \<and> \<not> is_space (last b')))
           \<and> (\<forall>x \<in> set acc'. seed_started x)"
  using assms
proof (induction S arbitrary: b acc)
  case Nil
  then show ?case by simp
next
  case (Cons s S)
  have sp: "\<forall>c \<in> set [CHR 0x0A, CHR 0x0A]. is_space c" by (simp add: is_space_def)
  from Cons.prems(1) have s: "seed_started s" "stmt_shape s"
    and S: "\<forall>s \<in> set S. seed_started s \<and> stmt_shape s" by simp_all
  from Cons.prems(2) have b: "b = [] \<or> seed_started b" by blast
  from seed_chunk[OF s b sp Cons.prems(3),
      of "concat (map (\<lambda>y. [CHR 0x0A, CHR 0x0A] @ y) S)"]
  obtain acc1 b1 where
    c: "split_loop (([CHR 0x0A, CHR 0x0A] @ s) @ concat (map (\<lambda>y. [CHR 0x0A, CHR 0x0A] @ y) S)) b acc
        = split_loop (concat (map (\<lambda>y. [CHR 0x0A, CHR 0x0A] @ y) S)) b1 acc1"
    and p: "b1 = [] \<or> (seed_started b1 \<and> \<not> is_space (last b1))" "\<forall>x \<in> set acc1. seed_started x"
    by blast
  from Cons.IH[OF S p] c show ?case by simp
qed

lemma seed_header_facts:
  "CHR '';'' \<notin> set seed_header" "seed_started seed_header"
  "\<forall>x \<in> set (split_statements seed_header). \<not> is_ddl x"
  by code_simp+

lemma resplit_seed:
  assumes "\<forall>s \<in> set S. is_insert s \<and> stmt_shape s"
  shows "\<forall>x \<in> set (split_statements (seed_header @ join [CHR 0x0A, CHR 0x0A] S)). \<not> is_ddl x"
proof (cases S)
  case Nil
  then show ?thesis using seed_header_facts(3) by simp
next
  case (Cons s S')
  with assms have s: "seed_started s" "stmt_shape s"
    and S': "\<forall>s \<in> set S'. seed_started s \<and> stmt_shape s"
    by (simp_all add: seed_started_def)
  let ?rest = "concat (map (\<lambda>y. [CHR 0x0A, CHR 0x0A] @ y) S')"
  have "split_loop (seed_header @ (s @ ?rest)) [] [] = split_loop (s @ ?rest) ([] @ seed_header) []"
    using seed_header_facts(1) by (rule split_loop_no_semi)
  then have h: "split_loop (seed_header @ (s @ ?rest)) [] [] = split_loop (s @ ?rest) seed_header []"
    by (simp only: append_Nil)
  have b0: "seed_header = [] \<or> seed_started seed_header" using seed_header_facts(2) by simp
  from seed_chunk[OF s b0, of "[]" "[]" ?rest]
  obtain acc1 b1 where
    c: "split_loop (s @ ?rest) seed_header [] = split_loop ?rest b1 acc1"
    and p: "b1 = [] \<or> (seed_started b1 \<and> \<not> is_space (last b1))" "\<forall>x \<in> set acc1. seed_started x"
    by auto
  from seed_chunks[OF S' p] obtain acc2 b2 where
    r: "split_loop ?rest b1 acc1 = (acc2, b2)"
    and q: "b2 = [] \<or> (seed_started b2 \<and> \<not> is_space (last b2))" "\<forall>x \<in> set acc2. seed_started x"
    by blast
  have sl: "split_loop (seed_header @ join [CHR 0x0A, CHR 0x0A] S) [] [] = (acc2, b2)"
    unfolding Cons join_Cons_concat h c r ..
  have tr: "seed_started (strip b2)" if "b2 \<noteq> []"
  proof -
    from q(1) that have d: "seed_started b2" "\<not> is_space (last b2)" by simp_all
    from strip_nospace_end[OF that d(2)] d(1) show ?thesis by (simp add: seed_started_lstrip)
  qed
  have "\<forall>x \<in> set (split_statements (seed_header @ join [CHR 0x0A, CHR 0x0A] S)). seed_started x"
    unfolding split_statements_def sl using q(2) tr by (auto simp: Let_def)
  then show ?thesis using seed_started_not_ddl by blast
qed

section \<open>The claims\<close>

subsection \<open>Resolver\<close>

text \<open>
  Claim C1 (topological validity). Let \<open>d\<close> be a dependency of the table \<open>t\<close> of the
  graph. With a recursion depth above the number of table names, the resolver returns,
  and in its resolved order \<open>d\<close> stands at a smaller position than \<open>t\<close>
  (\<open>list_index\<close> is the position), unless one reported cycle holds both \<open>t\<close> and
  \<open>d\<close>. The statement does not need \<open>d\<close> to be a key of the graph: it holds for
  every referenced table.
\<close>

theorem topological_validity:
  assumes "fcard (all_names g) < fuel" "fmlookup g t = Some ds" "d |\<in>| ds"
  shows "\<exists>res cyc. resolve_with fuel g = Inr (res, cyc)
           \<and> ((\<exists>i j. list_index res d = Some i \<and> list_index res t = Some j \<and> i < j)
                \<or> in_cycle_together cyc t d)"
proof -
  from resolve_with_spec[OF assms(1)] obtain res cyc where
    r: "resolve_with fuel g = Inr (res, cyc)" and dist: "distinct res"
    and dom: "fset (fmdom g) \<subseteq> set res"
    and ord: "\<forall>t \<in> set res. \<forall>d \<in> set (sorted_deps g t).
                 precedes res d t \<or> in_cycle_together cyc t d"
    by blast
  from assms(2) have "t |\<in>| fmdom g" by (rule fmdomI)
  with dom have t: "t \<in> set res" by blast
  from assms(2,3) have "d \<in> set (sorted_deps g t)" by (simp add: sorted_deps_set)
  with ord t have "precedes res d t \<or> in_cycle_together cyc t d" by blast
  then show ?thesis
  proof
    assume "precedes res d t"
    from precedes_index[OF this dist] r show ?thesis by blast
  next
    assume "in_cycle_together cyc t d"
    with r show ?thesis by blast
  qed
qed

theorem topological_validity_witness:
  "fcard (all_names example_graph_roles) < 3
   \<and> fmlookup example_graph_roles ''role_permissions'' = Some {|''roles''|}
   \<and> ''roles'' |\<in>| {|''roles''|}
   \<and> (\<exists>res cyc. resolve_with 3 example_graph_roles = Inr (res, cyc)
         \<and> ((\<exists>i j. list_index res ''roles'' = Some i
                  \<and> list_index res ''role_permissions'' = Some j \<and> i < j)
              \<or> in_cycle_together cyc ''role_permissions'' ''roles''))"
proof -
  have h1: "fcard (all_names example_graph_roles) < 3" by code_simp
  have h2: "fmlookup example_graph_roles ''role_permissions'' = Some {|''roles''|}"
    by code_simp
  have h3: "''roles'' |\<in>| {|''roles''|}" by simp
  from topological_validity[OF h1 h2 h3] h1 h2 h3 show ?thesis by blast
qed

text \<open>
  Claim C2 (termination and coverage). For every graph, also one with self references
  and cycles, the traversal returns once the recursion depth it may use exceeds the
  number of table names: no call raises and the recursion is never deeper than that.
  Every key of the graph occurs exactly once in the resolved order.
\<close>

theorem resolver_terminates_each_node_once:
  assumes "fcard (all_names g) < fuel"
  shows "\<exists>res cyc. resolve_with fuel g = Inr (res, cyc)
           \<and> (\<forall>t. t |\<in>| fmdom g \<longrightarrow> count_list res t = 1)"
proof -
  from resolve_with_spec[OF assms] obtain res cyc where
    r: "resolve_with fuel g = Inr (res, cyc)" and dist: "distinct res"
    and dom: "fset (fmdom g) \<subseteq> set res"
    by blast
  have "count_list res t = 1" if "t |\<in>| fmdom g" for t
    using dist dom that by (intro distinct_count_list) auto
  with r show ?thesis by blast
qed

theorem resolver_terminates_each_node_once_witness:
  "fcard (all_names example_graph_selfref) < 4
   \<and> (\<exists>res cyc. resolve_with 4 example_graph_selfref = Inr (res, cyc)
         \<and> count_list res ''a'' = 1 \<and> count_list res ''b'' = 1)"
proof -
  have h: "fcard (all_names example_graph_selfref) < 4" by code_simp
  have a: "''a'' |\<in>| fmdom example_graph_selfref" by code_simp
  have b: "''b'' |\<in>| fmdom example_graph_selfref" by code_simp
  from resolver_terminates_each_node_once[OF h] a b h show ?thesis by blast
qed

text \<open>
  Claim C7 (the two-table cycle). For \<open>a\<close> referencing \<open>b\<close> and \<open>b\<close> referencing
  \<open>a\<close> both tables occur once in the resolved order, and one cycle is reported. The
  stack that \<open>visit\<close> receives already ends with the node, so that
  \<open>stack[stack.index(node):] + [node]\<close> names it twice at the end: the report is
  \<open>a, b, a, a\<close>, not \<open>a, b, a\<close> or a rotation of it.
\<close>

theorem two_table_cycle_report:
  "resolve example_graph_cycle = Inr ([''b'', ''a''], [[''a'', ''b'', ''a'', ''a'']])"
  by code_simp

text \<open>
  The same doubling for a table that references itself, and the order for a reference
  to a table that is no key of the graph: the unknown table is resolved like a table
  without dependencies and stands in the order.
\<close>

lemma self_reference_report:
  "resolve (fmap_of_list [(''a'', {|''a''|})]) = Inr ([''a''], [[''a'', ''a'', ''a'']])"
  by code_simp

lemma unknown_dependency_resolved:
  "resolve (fmap_of_list [(''a'', {|''zz''|})]) = Inr ([''zz'', ''a''], [])"
  by code_simp

subsection \<open>Group assignor\<close>

text \<open>
  Claim C3 (budget respect). After a run of the loop over any order and any files every
  group's accumulated line count is at most \<open>LINE_LIMIT\<close>, the catch-all group
  \<open>misc\<close> included; every single successful \<open>write_group_content\<close> keeps this
  bound; and when the block does not fit the last group either, the loop does not
  place it but leaves with \<open>SystemExit\<close>. The count is the one the code keeps in
  \<open>group_lines\<close>: the lines of the blocks, without the blank lines between them.
\<close>

theorem budget_respect:
  "(main_loop files order lg = Inr st \<longrightarrow> lines_ok st)
   \<and> (lines_ok s \<and> write_group_content grp table content s = Inr (True, s') \<longrightarrow> lines_ok s')
   \<and> (wf_state s \<and> \<not> fits s (last GROUP_ORDER) blk \<longrightarrow>
        place_loop table blk (length GROUP_ORDER - 1, s)
          = Inl (SystemExit (''Line limit reached for all groups while placing '' @ table)))"
proof (intro conjI impI)
  assume "main_loop files order lg = Inr st"
  from main_loop_spec[OF this] show "lines_ok st" by (simp add: sinv_def)
next
  assume a: "lines_ok s \<and> write_group_content grp table content s = Inr (True, s')"
  then obtain n where n: "group_lines s grp = Some n"
    "n + (count_list content (CHR 0x0A) + 1) \<le> LINE_LIMIT"
    and s': "group_lines s' = (group_lines s)(grp \<mapsto> n + (count_list content (CHR 0x0A) + 1))"
    by (auto simp: write_group_content_def Let_def split: option.splits if_splits)
  from a have "lines_ok s" by simp
  with n s' show "lines_ok s'" by (auto simp: lines_ok_def)
next
  assume a: "wf_state s \<and> \<not> fits s (last GROUP_ORDER) blk"
  have lt: "length GROUP_ORDER - 1 < length GROUP_ORDER" by (simp add: GROUP_ORDER_def)
  have upt: "[length GROUP_ORDER - 1 ..< length GROUP_ORDER] = [length GROUP_ORDER - 1]"
    by (simp add: GROUP_ORDER_def)
  from a have "\<not> fits s (GROUP_ORDER ! (length GROUP_ORDER - 1)) blk"
    by (simp add: last_group)
  then have "find (\<lambda>i. fits s (GROUP_ORDER ! i) blk) [length GROUP_ORDER - 1 ..< length GROUP_ORDER]
      = None"
    unfolding upt by simp
  with a place_loop_char[OF _ lt, of s table blk]
  show "place_loop table blk (length GROUP_ORDER - 1, s)
          = Inl (SystemExit (''Line limit reached for all groups while placing '' @ table))"
    by (simp add: exit_message_def)
qed

theorem budget_respect_witness:
  "(\<exists>st. main_loop cascade_files [''roles'', ''users''] [] = Inr st \<and> lines_ok st)
   \<and> lines_ok (init_sstate [])
   \<and> write_group_content ''core'' ''roles'' (big_table 599) (init_sstate [])
        = Inr (True, core_full)
   \<and> lines_ok core_full
   \<and> wf_state misc_full
   \<and> \<not> fits misc_full (last GROUP_ORDER) (big_table 0)
   \<and> place_loop ''audit_logs'' (big_table 0) (length GROUP_ORDER - 1, misc_full)
        = Inl (SystemExit (''Line limit reached for all groups while placing '' @ ''audit_logs''))"
proof -
  from run2[of "[]"] obtain st where st: "main_loop cascade_files [''roles'', ''users''] [] = Inr st"
    by blast
  note b1 = budget_respect[where files = cascade_files and order = "[''roles'', ''users'']"
      and lg = "[]" and st = st and s = "init_sstate []" and grp = "''core''"
      and table = "''roles''" and content = "big_table 599" and s' = core_full]
  note b2 = budget_respect[where s = misc_full and blk = "big_table 0"
      and table = "''audit_logs''"]
  have l0: "lines_ok (init_sstate [])" using sinv_init by (simp add: sinv_def)
  have f0: "fits (init_sstate []) ''core'' (big_table 599)"
    by (simp add: fits_def init_sstate_def GROUP_ORDER_def big_table_lines LINE_LIMIT_def)
  have w: "write_group_content ''core'' ''roles'' (big_table 599) (init_sstate [])
        = Inr (True, core_full)"
    using f0 by (simp add: write_group_content_wf[OF wf_state_init] GROUP_ORDER_def core_full_def)
  have wfm: "wf_state misc_full"
    unfolding misc_full_def using wf_state_init by (rule wf_state_placed)
  have nf: "\<not> fits misc_full (last GROUP_ORDER) (big_table 0)"
    by (simp add: fits_def misc_full_def placed_def init_sstate_def GROUP_ORDER_def
        big_table_lines LINE_LIMIT_def)
  from b1 b2 st l0 w wfm nf show ?thesis by blast
qed

text \<open>
  Claim C4 (the only abort). Processing a table aborts exactly when its file has a
  structural block and no group from its preferred group up to the last one has room
  for it; the exit message names the table. A run aborts exactly when this happens at
  one of its tables, in the state reached so far. The resolver returns for every graph,
  with cycles or with references to unknown tables; a table without a file or without a
  structural block is skipped and leaves the state as it is.
\<close>

theorem abort_only_when_no_group_fits:
  assumes "wf_state st"
  shows "(process_table files t st = Inl e \<longleftrightarrow>
            e = SystemExit (''Line limit reached for all groups while placing '' @ t)
            \<and> (\<exists>body. files t = Some body \<and> ddl_statements_of body \<noteq> []
                  \<and> (\<forall>i. preferred_index t \<le> i \<and> i < length GROUP_ORDER
                         \<longrightarrow> \<not> fits st (GROUP_ORDER ! i) (ddl_block_of body))))
       \<and> (main_loop files order lg = Inl e' \<longleftrightarrow>
            (\<exists>k<length order. \<exists>s. main_loop files (take k order) lg = Inr s \<and> wf_state s
                \<and> process_table files (order ! k) s = Inl e'))
       \<and> (main_loop files order lg = Inl e' \<longrightarrow>
            (\<exists>t' \<in> set order.
                e' = SystemExit (''Line limit reached for all groups while placing '' @ t')))
       \<and> (\<exists>res cyc. resolve g = Inr (res, cyc))
       \<and> (files t = None \<or> (\<exists>body. files t = Some body \<and> ddl_statements_of body = [])
            \<longrightarrow> process_table files t st = Inr st)"
proof (intro conjI)
  show "process_table files t st = Inl e \<longleftrightarrow>
            e = SystemExit (''Line limit reached for all groups while placing '' @ t)
            \<and> (\<exists>body. files t = Some body \<and> ddl_statements_of body \<noteq> []
                  \<and> (\<forall>i. preferred_index t \<le> i \<and> i < length GROUP_ORDER
                         \<longrightarrow> \<not> fits st (GROUP_ORDER ! i) (ddl_block_of body)))"
    using process_table_abort_iff[OF assms, of files t e] by (simp add: exit_message_def)
next
  have wf: "wf_state s" if "main_loop files (take k order) lg = Inr s" for k s
    using main_loop_spec[OF that] by (simp add: sinv_def)
  show "main_loop files order lg = Inl e' \<longleftrightarrow>
            (\<exists>k<length order. \<exists>s. main_loop files (take k order) lg = Inr s \<and> wf_state s
                \<and> process_table files (order ! k) s = Inl e')"
    unfolding main_loop_def for_each_abort_iff[of "process_table files" order]
    using wf by (auto simp: main_loop_def)
next
  show "main_loop files order lg = Inl e' \<longrightarrow>
            (\<exists>t' \<in> set order.
                e' = SystemExit (''Line limit reached for all groups while placing '' @ t'))"
  proof
    assume "main_loop files order lg = Inl e'"
    then have "for_each (process_table files) order (init_sstate lg) = Inl e'"
      by (simp add: main_loop_def)
    from run_abort[OF sinv_init this] obtain t' s where
      t': "t' \<in> set order" "sinv s" "process_table files t' s = Inl e'" by blast
    from t'(2) have "wf_state s" by (simp add: sinv_def)
    from process_table_abort_iff[OF this, of files t' e'] t'(3)
    have "e' = SystemExit (exit_message t')" by simp
    with t'(1) show "\<exists>t' \<in> set order.
        e' = SystemExit (''Line limit reached for all groups while placing '' @ t')"
      by (auto simp: exit_message_def)
  qed
next
  show "\<exists>res cyc. resolve g = Inr (res, cyc)" by (rule resolve_total)
next
  show "files t = None \<or> (\<exists>body. files t = Some body \<and> ddl_statements_of body = [])
            \<longrightarrow> process_table files t st = Inr st"
    using process_table_char[OF assms, of files t] by auto
qed

theorem abort_only_when_no_group_fits_witness:
  "wf_state (init_sstate [])
   \<and> process_table oversize_files ''roles'' (init_sstate [])
       = Inl (SystemExit (''Line limit reached for all groups while placing '' @ ''roles''))
   \<and> main_loop oversize_files [''roles''] []
       = Inl (SystemExit (''Line limit reached for all groups while placing '' @ ''roles''))
   \<and> process_table oversize_files ''orphan_log'' (init_sstate []) = Inr (init_sstate [])
   \<and> (\<exists>res cyc. resolve example_graph_cycle = Inr (res, cyc))"
proof -
  let ?e = "SystemExit (''Line limit reached for all groups while placing '' @ ''roles'')"
  note th = abort_only_when_no_group_fits[OF wf_state_init, where lg = "[]"
      and files = oversize_files and g = example_graph_cycle]
  have f: "oversize_files ''roles'' = Some (big_table 600)" by (simp add: oversize_files_def)
  have d: "ddl_statements_of (big_table 600) \<noteq> []" by (simp add: big_table_ddl)
  have p: "process_table oversize_files ''roles'' (init_sstate []) = Inl ?e"
    using th[where t = "''roles''" and e = ?e] f d oversize_nofit by blast
  have "main_loop oversize_files (take 0 [''roles'']) [] = Inr (init_sstate [])"
    by (simp add: main_loop_def)
  with p have m: "main_loop oversize_files [''roles''] [] = Inl ?e"
    using th[where order = "[''roles'']" and e' = ?e and t = "''roles''"] wf_state_init[of "[]"]
    by auto
  have "oversize_files ''orphan_log'' = None" by (simp add: oversize_files_def)
  then have o: "process_table oversize_files ''orphan_log'' (init_sstate []) = Inr (init_sstate [])"
    using th[where t = "''orphan_log''"] by blast
  from th[where t = "''roles''"] have "\<exists>res cyc. resolve example_graph_cycle = Inr (res, cyc)" by blast
  with p m o wf_state_init[of "[]"] show ?thesis by blast
qed

text \<open>
  Claim C5 (cascade monotonicity). For a table with a structural block the loop starts
  at the index of the group \<open>assign_group\<close> gives, which is \<open>misc\<close>, the last group,
  for a table on no membership list. If that group has room the block is placed
  there. Otherwise the group of the placement is the first one after it, in the order
  of \<open>GROUP_ORDER\<close>, that has room; the lines written to the log name the groups
  passed, in increasing order; and every pass through the loop body that goes on
  moves the index forward by one.
\<close>

theorem cascade_forward_only:
  assumes "wf_state st" "files t = Some body" "ddl_statements_of body \<noteq> []"
  shows "GROUP_ORDER ! preferred_index t = assign_group t
    \<and> (on_no_list t \<longrightarrow> assign_group t = ''misc'' \<and> preferred_index t = length GROUP_ORDER - 1)
    \<and> process_table files t st =
         (case place_loop t (ddl_block_of body) (preferred_index t, st) of
            Inl e \<Rightarrow> Inl e
          | Inr (gj, st') \<Rightarrow> Inr (collect_seeds t (insert_statements_of body) st'))
    \<and> (fits st (assign_group t) (ddl_block_of body) \<longrightarrow>
          place_loop t (ddl_block_of body) (preferred_index t, st)
            = Inr (preferred_index t, placed st (assign_group t) (ddl_block_of body)))
    \<and> (place_loop t (ddl_block_of body) (preferred_index t, st) = Inr (gj, st') \<longrightarrow>
          preferred_index t \<le> gj \<and> gj < length GROUP_ORDER
          \<and> (\<forall>i. preferred_index t \<le> i \<and> i < gj
                 \<longrightarrow> \<not> fits st (GROUP_ORDER ! i) (ddl_block_of body))
          \<and> fits st (GROUP_ORDER ! gj) (ddl_block_of body)
          \<and> st' = placed (st\<lparr>log_file := log_file st
                    @ concat (map (\<lambda>k. exceeded_line (GROUP_ORDER ! k) t (GROUP_ORDER ! (k + 1)))
                               [preferred_index t ..< gj])\<rparr>)
                    (GROUP_ORDER ! gj) (ddl_block_of body))
    \<and> (place_body t blk (gi, s) = Inr (Continue (gi', s')) \<longrightarrow> gi' = gi + 1)"
proof (intro conjI impI)
  let ?p = "preferred_index t"
  let ?blk = "ddl_block_of body"
  note pl = place_loop_char[OF assms(1) preferred_index_props(2)[of t], of t ?blk]
  have upt: "[?p ..< length GROUP_ORDER] = ?p # [Suc ?p ..< length GROUP_ORDER]"
    using preferred_index_props(2)[of t] by (simp add: upt_conv_Cons)
  show "GROUP_ORDER ! ?p = assign_group t" by (rule preferred_index_props(3))
  show "assign_group t = ''misc''" if "on_no_list t" using that by (rule assign_group_default)
  show "?p = length GROUP_ORDER - 1" if "on_no_list t" using that by (rule preferred_index_default)
  show "process_table files t st =
         (case place_loop t ?blk (?p, st) of
            Inl e \<Rightarrow> Inl e
          | Inr (gj, st') \<Rightarrow> Inr (collect_seeds t (insert_statements_of body) st'))"
    using assms(2,3)
    unfolding ddl_statements_of_def insert_statements_of_def ddl_block_of_def
    by (simp add: process_table_def Let_def preferred_index_props(1) ddl_statements_of_def)
  show "place_loop t ?blk (?p, st) = Inr (?p, placed st (assign_group t) ?blk)"
    if "fits st (assign_group t) ?blk"
  proof -
    have "st\<lparr>log_file := log_file st @ cascade_log t ?p ?p\<rparr> = st"
      by (simp add: cascade_log_def)
    with that show ?thesis
      unfolding pl upt by (simp add: preferred_index_props(3))
  qed
  assume r: "place_loop t ?blk (?p, st) = Inr (gj, st')"
  then obtain k where f: "find (\<lambda>i. fits st (GROUP_ORDER ! i) ?blk) [?p ..< length GROUP_ORDER] = Some k"
    unfolding pl by (auto split: option.splits)
  with r have eq: "gj = k" "st' = placed (st\<lparr>log_file := log_file st @ cascade_log t ?p k\<rparr>)
       (GROUP_ORDER ! k) ?blk"
    unfolding pl by auto
  from find_upt_Some[OF f] eq(1)
  show "?p \<le> gj" "gj < length GROUP_ORDER" "fits st (GROUP_ORDER ! gj) ?blk"
    "\<forall>i. ?p \<le> i \<and> i < gj \<longrightarrow> \<not> fits st (GROUP_ORDER ! i) ?blk"
    by simp_all
  from eq show "st' = placed (st\<lparr>log_file := log_file st
                    @ concat (map (\<lambda>k. exceeded_line (GROUP_ORDER ! k) t (GROUP_ORDER ! (k + 1)))
                               [?p ..< gj])\<rparr>)
                    (GROUP_ORDER ! gj) ?blk"
    by (simp add: cascade_log_def)
next
  assume "place_body t blk (gi, s) = Inr (Continue (gi', s'))"
  then show "gi' = gi + 1"
    by (auto simp: place_body_def Let_def split: sum.splits bool.splits if_splits prod.splits)
qed

theorem cascade_forward_only_witness:
  "wf_state core_full
   \<and> cascade_files ''users'' = Some (big_table 0)
   \<and> ddl_statements_of (big_table 0) \<noteq> []
   \<and> assign_group ''users'' = ''core''
   \<and> GROUP_ORDER ! preferred_index ''users'' = ''core''
   \<and> place_loop ''users'' (ddl_block_of (big_table 0)) (preferred_index ''users'', init_sstate [])
       = Inr (preferred_index ''users'',
              placed (init_sstate []) (assign_group ''users'') (ddl_block_of (big_table 0)))
   \<and> unlisted_files ''extra_notes'' = Some (big_table 0)
   \<and> on_no_list ''extra_notes''
   \<and> assign_group ''extra_notes'' = ''misc''
   \<and> preferred_index ''extra_notes'' = length GROUP_ORDER - 1"
proof -
  have wf: "wf_state core_full"
    unfolding core_full_def using wf_state_init by (rule wf_state_placed)
  have f: "cascade_files ''users'' = Some (big_table 0)" by (simp add: cascade_files_def)
  have d: "ddl_statements_of (big_table 0) \<noteq> []" by (simp add: big_table_ddl)
  have a: "assign_group ''users'' = ''core''" by (simp add: assign_group_def GROUPS_def)
  have fit: "fits (init_sstate []) (assign_group ''users'') (ddl_block_of (big_table 0))"
    by (simp add: a fits_def init_sstate_def GROUP_ORDER_def big_table_ddl big_table_lines
        LINE_LIMIT_def)
  have u: "unlisted_files ''extra_notes'' = Some (big_table 0)" by (simp add: unlisted_files_def)
  have n: "on_no_list ''extra_notes''" by (simp add: on_no_list_def GROUPS_def)
  note t1 = cascade_forward_only[where files = cascade_files and t = "''users''", OF wf f d]
  note t2 = cascade_forward_only[where files = cascade_files and t = "''users''",
      OF wf_state_init[of "[]"] f d]
  note t3 = cascade_forward_only[where files = unlisted_files and t = "''extra_notes''",
      OF wf u d]
  from t1 a have "GROUP_ORDER ! preferred_index ''users'' = ''core''" by simp
  moreover from t2 fit have "place_loop ''users'' (ddl_block_of (big_table 0))
       (preferred_index ''users'', init_sstate [])
       = Inr (preferred_index ''users'',
              placed (init_sstate []) (assign_group ''users'') (ddl_block_of (big_table 0)))"
    by blast
  moreover from t3 n have "assign_group ''extra_notes'' = ''misc''"
    "preferred_index ''extra_notes'' = length GROUP_ORDER - 1" by blast+
  ultimately show ?thesis using wf f d a u n by blast
qed

text \<open>
  Claim C6 (the reassignment log). The run of the script on two \<open>core\<close> tables of 600
  lines and of one line, with a log of an earlier run on disk. The earlier line is gone:
  \<open>prepare_group_files\<close> empties the log. The one cascade of the run is logged in
  the form that \<open>main\<close> writes itself, \<open>Exceeded 600 lines in core, moving users to
  project\<close>, and the line stands twice, because the script calls \<open>main\<close> a second
  time. The line that \<open>log_reassignment\<close> would write, \<open>Table users moved from core
  to project\<close>, is not in the log: nothing calls that function.
\<close>

theorem reassignment_log_example:
  "\<exists>d. script cascade_files [''roles'', ''users''] stale_disk = Inr d
       \<and> log_text d = ''Exceeded 600 lines in core, moving users to project'' @ [CHR 0x0A]
                        @ ''Exceeded 600 lines in core, moving users to project'' @ [CHR 0x0A]
       \<and> log_text d \<noteq> log_reassignment ''users'' ''core'' ''project'' []"
proof -
  from script_cascade_run[of stale_disk] obtain d where
    d: "script cascade_files [''roles'', ''users''] stale_disk = Inr d"
    "log_text d = exceeded_line ''core'' ''users'' ''project''
                        @ exceeded_line ''core'' ''users'' ''project''"
    by blast
  from d(2) have l: "log_text d = ''Exceeded 600 lines in core, moving users to project'' @ [CHR 0x0A]
                        @ ''Exceeded 600 lines in core, moving users to project'' @ [CHR 0x0A]"
    by (simp add: exceeded_line_example)
  have "log_text d \<noteq> log_reassignment ''users'' ''core'' ''project'' []"
    unfolding l by (simp add: log_reassignment_def)
  with d(1) l show ?thesis by blast
qed

text \<open>
  Claim C8 (seed isolation). After a run of the script the seed file is its header
  line followed by the seed list, which is, table by table in the resolved order, the
  insertion statements of the allow-listed tables that have a structural block. Every
  statement of the list is an insertion statement, none is a structural one, and
  each comes from the file of an allow-listed table; read again with
  \<open>split_statements\<close>, the seed file has no statement that \<open>is_ddl\<close> accepts. No
  group file contains an insertion statement: read again with \<open>split_statements\<close>,
  a group file has no statement that \<open>is_insert\<close> accepts, and unless it is the
  placeholder line every statement in it is one that \<open>is_ddl\<close> accepts. A table
  that is not allow-listed adds nothing to the seed list; that is no error. A
  statement is what \<open>split_statements\<close> returns.
\<close>

theorem seed_isolation:
  assumes "script files order d = Inr d'"
  shows "output_files d' ''seed''
           = Some (''-- Seed file (DDL stripped)'' @ [CHR 0x0A]
                   @ join [CHR 0x0A, CHR 0x0A] (concat (map (seed_contribution files) order)))
       \<and> (\<forall>x \<in> set (split_statements
                      (''-- Seed file (DDL stripped)'' @ [CHR 0x0A]
                       @ join [CHR 0x0A, CHR 0x0A] (concat (map (seed_contribution files) order)))).
             \<not> is_ddl x)
       \<and> (\<forall>s \<in> set (concat (map (seed_contribution files) order)).
             is_insert s \<and> \<not> is_ddl s
             \<and> (\<exists>t \<in> set order. t \<in> set ALLOWED_SEED_TABLES
                   \<and> (\<exists>body. files t = Some body \<and> s \<in> set (split_statements body))))
       \<and> (\<forall>grp \<in> set GROUP_ORDER.
             \<exists>body. output_files d' grp = Some body
               \<and> (\<forall>x \<in> set (split_statements body). \<not> is_insert x)
               \<and> (body = ''-- '' @ grp @ '' schema pending'' @ [CHR 0x0A]
                    \<or> (\<forall>x \<in> set (split_statements body). is_ddl x)))
       \<and> (\<forall>t. t \<notin> set ALLOWED_SEED_TABLES \<longrightarrow> seed_contribution files t = [])"
proof -
  from assms obtain d1 where "main files order d1 = Inr d'"
    by (auto simp: script_def split: sum.splits)
  from main_char(2)[OF this] obtain st where
    st: "main_loop files order (log_text d1) = Inr st"
    and out: "map (output_files d') OUTPUT_KEYS
               = map (group_file st) GROUP_ORDER @ [Some (seed_file st)]"
    by blast
  from main_loop_spec[OF st] have inv: "sinv st"
    and sd: "seeds st = concat (map (seed_contribution files) order)" by auto
  from out have o: "output_files d' ''seed'' = Some (seed_file st)"
    "\<And>grp. grp \<in> set GROUP_ORDER \<Longrightarrow> output_files d' grp = group_file st grp"
    by (auto simp: OUTPUT_KEYS_def GROUP_ORDER_def)
  have 1: "output_files d' ''seed''
           = Some (''-- Seed file (DDL stripped)'' @ [CHR 0x0A]
                   @ join [CHR 0x0A, CHR 0x0A] (concat (map (seed_contribution files) order)))"
    using o(1) sd by (simp add: seed_file_def seed_header_def)
  have 2: "is_insert s \<and> \<not> is_ddl s
             \<and> (\<exists>t \<in> set order. t \<in> set ALLOWED_SEED_TABLES
                   \<and> (\<exists>body. files t = Some body \<and> s \<in> set (split_statements body)))"
    if "s \<in> set (concat (map (seed_contribution files) order))" for s
  proof -
    from that obtain t where t: "t \<in> set order" "s \<in> set (seed_contribution files t)"
      by auto
    from t(2) obtain body where f: "files t = Some body"
      by (cases "files t") (auto simp: seed_contribution_def)
    with t(2) have b: "files t = Some body" "t \<in> set ALLOWED_SEED_TABLES"
      "s \<in> set (insert_statements_of body)"
      by (auto simp: seed_contribution_def split: if_splits)
    from b(3) have "is_insert s" "s \<in> set (split_statements body)"
      by (simp_all add: insert_statements_of_def)
    with t(1) b insert_not_ddl show ?thesis by blast
  qed
  have 3: "\<exists>body. output_files d' grp = Some body
               \<and> (\<forall>x \<in> set (split_statements body). \<not> is_insert x)
               \<and> (body = ''-- '' @ grp @ '' schema pending'' @ [CHR 0x0A]
                    \<or> (\<forall>x \<in> set (split_statements body). is_ddl x))"
    if grp: "grp \<in> set GROUP_ORDER" for grp
  proof -
    from inv grp obtain b where b: "group_contents st grp = Some b"
      by (auto simp: sinv_def wf_state_def)
    with inv grp have jb: "b = [] \<or> joined_ddl b" by (simp add: sinv_def groups_ok_def)
    show ?thesis
    proof (cases "b = []")
      case True
      with b o(2)[OF grp] have "output_files d' grp = Some (placeholder grp)"
        by (simp add: group_file_def)
      with placeholder_statements[OF grp] show ?thesis by (simp add: placeholder_def)
    next
      case False
      with jb obtain S where S: "S \<noteq> []" "b = join [CHR 0x0A, CHR 0x0A] S"
        "\<forall>s \<in> set S. ddl_stmt s"
        by (auto simp: joined_ddl_def)
      from resplit_ddl[OF S(1,3)] S(2) have d: "\<forall>x \<in> set (split_statements b). is_ddl x"
        by simp
      then have "\<forall>x \<in> set (split_statements b). \<not> is_insert x"
        using ddl_not_insert by blast
      moreover from False b o(2)[OF grp] have "output_files d' grp = Some b"
        by (simp add: group_file_def)
      ultimately show ?thesis using d by blast
    qed
  qed
  have 4: "seed_contribution files t = []" if "t \<notin> set ALLOWED_SEED_TABLES" for t
    using that by (simp add: seed_contribution_def split: option.splits)
  have "is_insert s \<and> stmt_shape s"
    if "s \<in> set (concat (map (seed_contribution files) order))" for s
    using 2[OF that] split_statements_shape by blast
  then have "\<forall>x \<in> set (split_statements
                      (seed_header @ join [CHR 0x0A, CHR 0x0A]
                         (concat (map (seed_contribution files) order)))).
             \<not> is_ddl x"
    by (intro resplit_seed) blast
  then have 5: "\<forall>x \<in> set (split_statements
                      (''-- Seed file (DDL stripped)'' @ [CHR 0x0A]
                       @ join [CHR 0x0A, CHR 0x0A] (concat (map (seed_contribution files) order)))).
             \<not> is_ddl x"
    by (simp add: seed_header_def)
  from 1 2 3 4 5 show ?thesis by blast
qed

theorem seed_isolation_witness:
  "\<exists>d'. script seed_files [''settings'', ''orphan_log'', ''users''] stale_disk = Inr d'
     \<and> output_files d' ''seed''
         = Some (''-- Seed file (DDL stripped)'' @ [CHR 0x0A] @ ''INSERT INTO settings VALUES (1);'')
     \<and> concat (map (seed_contribution seed_files) [''settings'', ''orphan_log'', ''users''])
         = [''INSERT INTO settings VALUES (1);'']
     \<and> seed_contribution seed_files ''users'' = []
     \<and> output_files d' ''misc'' = Some ''CREATE TABLE settings (id int);''
     \<and> \<not> is_insert ''CREATE TABLE settings (id int);''
     \<and> split_statements ''CREATE TABLE settings (id int);'' = [''CREATE TABLE settings (id int);'']"
proof -
  let ?ord = "[''settings'', ''orphan_log'', ''users'']"
  from seed_files_run obtain d' where
    d': "script seed_files ?ord stale_disk = Inr d'"
    and o: "output_files d' ''seed''
         = Some (''-- Seed file (DDL stripped)'' @ [CHR 0x0A] @ ''INSERT INTO settings VALUES (1);'')"
    "output_files d' ''misc'' = Some ''CREATE TABLE settings (id int);''"
    by (cases "script seed_files ?ord stale_disk") auto
  note th = seed_isolation[OF d']
  have c: "concat (map (seed_contribution seed_files) ?ord) = [''INSERT INTO settings VALUES (1);'']"
    by code_simp
  have "''users'' \<notin> set ALLOWED_SEED_TABLES" by (simp add: ALLOWED_SEED_TABLES_def)
  with th have u: "seed_contribution seed_files ''users'' = []" by blast
  have sp: "split_statements ''CREATE TABLE settings (id int);'' = [''CREATE TABLE settings (id int);'']"
    by code_simp
  have "''misc'' \<in> set GROUP_ORDER" by (simp add: GROUP_ORDER_def)
  with th o(2) have "\<forall>x \<in> set (split_statements ''CREATE TABLE settings (id int);''). \<not> is_insert x"
    by fastforce
  with sp have n: "\<not> is_insert ''CREATE TABLE settings (id int);''" by simp
  from d' o c u n sp show ?thesis by blast
qed

subsection \<open>Both scripts\<close>

text \<open>
  Claim C9 (determinism). A HOL function gives equal results on equal arguments; what
  can differ between two runs on the same files is the order in which the directory
  is listed and what earlier runs left on disk. Neither matters: for two listings of
  one directory (the same files, each name once) and any two states of the disk, the
  runs end alike, with the same exit or with the same resolved order, report, output
  files and log.
\<close>

theorem pipeline_deterministic:
  assumes "distinct (map fst l1)" "distinct (map fst l2)" "set l1 = set l2"
  shows "map_sum id observe (pipeline find_refs l1 d1) = map_sum id observe (pipeline find_refs l2 d2)"
proof -
  have g: "build_graph find_refs l1 = build_graph find_refs l2"
    using assms by (rule build_graph_listing_order)
  then have r: "resolver_main find_refs l1 = resolver_main find_refs l2"
    by (simp add: resolver_main_def)
  have m: "map_of l1 = map_of l2" using assms by (simp add: map_of_inject_set)
  show ?thesis
  proof (cases "resolver_main find_refs l2")
    case (Inl e)
    with r show ?thesis by (simp add: pipeline_def)
  next
    case (Inr p)
    obtain order report where p: "p = (order, report)" by (cases p)
    from script_observe[of "map_of l2" order d1 d2]
    show ?thesis using r m Inr p
      by (cases "script (map_of l2) order d1"; cases "script (map_of l2) order d2")
         (auto simp: pipeline_def observe_def)
  qed
qed

theorem pipeline_deterministic_witness:
  "distinct (map fst listing_a) \<and> distinct (map fst listing_b)
   \<and> set listing_a = set listing_b
   \<and> map_sum id observe (pipeline no_fk listing_a stale_disk)
       = map_sum id observe (pipeline no_fk listing_b blank_disk)"
proof -
  have h1: "distinct (map fst listing_a)" by (simp add: listing_a_def)
  have h2: "distinct (map fst listing_b)" by (simp add: listing_b_def)
  have h3: "set listing_a = set listing_b" by (auto simp: listing_a_def listing_b_def)
  from pipeline_deterministic[OF h1 h2 h3, of no_fk stale_disk blank_disk] h1 h2 h3
  show ?thesis by blast
qed

text \<open>
  Claim C10 (a table without structural block). The file of the allow-listed table
  \<open>roles\<close> holds an insertion statement and no structural statement, and the words
  \<open>CREATE TABLE\<close> in a comment. The splitter skips the table before it collects
  seeds: the state is unchanged and the table adds nothing to the seed list. The
  resolver tests the whole text for the words \<open>CREATE TABLE\<close>, not the statements:
  it makes the table a key of the graph, resolves it and lists it in the report.
\<close>

theorem seedless_table_graph_node:
  "ghost_files ''roles'' = Some ghost_text
   \<and> ''roles'' \<in> set ALLOWED_SEED_TABLES
   \<and> ddl_statements_of ghost_text = []
   \<and> insert_statements_of ghost_text = [''INSERT INTO roles VALUES (1);'']
   \<and> process_table ghost_files ''roles'' (init_sstate []) = Inr (init_sstate [])
   \<and> seed_contribution ghost_files ''roles'' = []
   \<and> ''roles'' |\<in>| fmdom (build_graph no_fk [(''roles'', ghost_text)])
   \<and> resolver_main no_fk [(''roles'', ghost_text)]
       = Inr ([''roles''],
              ''Dependency order (parent -> child):'' @ [CHR 0x0A]
              @ ''01. roles -> depends on none'' @ [CHR 0x0A] @ [CHR 0x0A]
              @ ''No cycles detected.'' @ [CHR 0x0A])"
proof -
  have f: "ghost_files ''roles'' = Some ghost_text" by (simp add: ghost_files_def)
  have a: "''roles'' \<in> set ALLOWED_SEED_TABLES" by (simp add: ALLOWED_SEED_TABLES_def)
  have d: "ddl_statements_of ghost_text = []" by code_simp
  have i: "insert_statements_of ghost_text = [''INSERT INTO roles VALUES (1);'']"
    by code_simp
  have p: "process_table ghost_files ''roles'' (init_sstate []) = Inr (init_sstate [])"
    using f d by (rule process_table_no_ddl)
  have c: "seed_contribution ghost_files ''roles'' = []"
    using f d by (simp add: seed_contribution_def)
  have "contains ''CREATE TABLE'' ghost_text" by code_simp
  then have g: "''roles'' |\<in>| fmdom (build_graph no_fk [(''roles'', ghost_text)])"
    by (subst build_graph_dom[where body = ghost_text]) simp_all
  have r: "resolver_main no_fk [(''roles'', ghost_text)]
       = Inr ([''roles''],
              ''Dependency order (parent -> child):'' @ [CHR 0x0A]
              @ ''01. roles -> depends on none'' @ [CHR 0x0A] @ [CHR 0x0A]
              @ ''No cycles detected.'' @ [CHR 0x0A])"
    by code_simp
  from f a d i p c g r show ?thesis by blast
qed

end
